theory Spec2Isabelle
  imports Main "HOL-Library.Finite_Map"
begin

section \<open>The genealogy store of \<open>virus_genealogy.h\<close>\<close>

text \<open>
  The class template \<open>VirusGenealogy<Virus>\<close> keeps a graph of \<open>Node\<close> objects. Every node
  is allocated by \<open>std::make_shared\<close> and is referred to by \<open>std::shared_ptr<Node>\<close> from
  the map \<open>viruses\<close>, from the member \<open>stemNode\<close> and from the sets \<open>parents\<close> and
  \<open>children\<close> of other nodes. The model keeps these objects in an explicit heap: a finite
  map from addresses to nodes. A \<open>shared_ptr\<close> is the address it holds.

  \<^item> \<open>std::set<std::shared_ptr<Node>>\<close> orders its elements by \<open>operator<\<close> of
    \<open>shared_ptr\<close>, which compares the stored pointers. A set is therefore modelled as the
    list of its addresses in ascending order, without repetition.
  \<^item> The address that \<open>std::make_shared\<close> returns is chosen by the allocator, not by the
    program: it is a parameter of the operations that allocate, and it has to be an
    address that the heap does not hold yet.
  \<^item> A node is destroyed when its last \<open>shared_ptr\<close> goes away. The model never reclaims a
    cell: a node that no pointer of the store reaches stays in the heap as garbage, which
    no operation can observe.
  \<^item> \<open>std::bad_alloc\<close> and the exceptions of the identifier type are not modelled; the
    only exceptions are the three classes the header declares.
  \<^item> Where the behaviour of the C++ code is undefined the model still returns a value.
    Two places of \<open>remove\<close> are concerned. Its traversal reads the front of the queue
    through a reference after \<open>pop()\<close>; the model reads the element before it is popped,
    as described with \<open>bfs\<close>. And \<open>remove\<close> erases a position of a container a second
    time, or erases \<open>end()\<close>, on some inputs; of such a call the value of the model says
    nothing about the code. The predicate \<open>remove_defined\<close> describes the calls of
    \<open>remove\<close> that do neither; the theorems of the closing sections that speak of
    sequences of operations are stated for sequences of such calls, or for sequences
    that are proved to consist of them.
\<close>

subsection \<open>Data\<close>

type_synonym addr = nat

datatype error = VirusAlreadyCreated | VirusNotFound | TriedToRemoveStemVirus

text \<open>
  The template parameter \<open>Virus\<close> is not part of the header. The header uses two things of
  it: the constructor \<open>Virus(id)\<close> and the member \<open>get_id()\<close>. Modelled from the spec: the
  payload type "must expose its own identifier"; a virus is the identifier it was built
  from.
\<close>

datatype 'id virus = Virus (get_id: 'id)

record 'id node =
  virus :: "'id virus"
  parents :: "addr list"
  children :: "addr list"

definition Node :: "'id \<Rightarrow> 'id node" where
  "Node vid = \<lparr>virus = Virus vid, parents = [], children = []\<rparr>"

definition node_id :: "'id node \<Rightarrow> 'id" where
  "node_id n = get_id (virus n)"

type_synonym 'id heap = "(addr, 'id node) fmap"

record 'id genealogy =
  heap :: "'id heap"
  viruses :: "'id \<rightharpoonup> addr"
  stemNode :: addr

text \<open>
  Dereferencing a \<open>shared_ptr\<close>. A \<open>shared_ptr\<close> that the program holds keeps its node
  alive, so the program never dereferences an address outside the heap; the predicate
  \<open>well_formed\<close> below states this of a store, and the theorems that depend on a dereference assume
  it or prove it.
\<close>

definition node_at :: "'id heap \<Rightarrow> addr \<Rightarrow> 'id node" where
  "node_at h a = the (fmlookup h a)"

subsection \<open>The operations of \<open>set_t\<close>\<close>

definition set_insert :: "addr \<Rightarrow> addr list \<Rightarrow> addr list" where
  "set_insert x xs = (if x \<in> set xs then xs else insort x xs)"

definition set_erase :: "addr \<Rightarrow> addr list \<Rightarrow> addr list" where
  "set_erase x xs = remove1 x xs"

definition map_parents :: "(addr list \<Rightarrow> addr list) \<Rightarrow> addr \<Rightarrow> 'id heap \<Rightarrow> 'id heap" where
  "map_parents f a h = fmupd a ((node_at h a)\<lparr>parents := f (parents (node_at h a))\<rparr>) h"

definition map_children :: "(addr list \<Rightarrow> addr list) \<Rightarrow> addr \<Rightarrow> 'id heap \<Rightarrow> 'id heap" where
  "map_children f a h = fmupd a ((node_at h a)\<lparr>children := f (children (node_at h a))\<rparr>) h"

subsection \<open>Construction and queries\<close>

definition VirusGenealogy :: "addr \<Rightarrow> 'id \<Rightarrow> 'id genealogy" where
  "VirusGenealogy a stem_id =
     \<lparr>heap = fmupd a (Node stem_id) fmempty, viruses = [stem_id \<mapsto> a], stemNode = a\<rparr>"

definition get_stem_id :: "'id genealogy \<Rightarrow> 'id" where
  "get_stem_id s = node_id (node_at (heap s) (stemNode s))"

definition exists :: "'id genealogy \<Rightarrow> 'id \<Rightarrow> bool" where
  "exists s vid = (viruses s vid \<noteq> None)"

definition get_parents :: "'id genealogy \<Rightarrow> 'id \<Rightarrow> error + 'id list" where
  "get_parents s vid =
     (case viruses s vid of
        None \<Rightarrow> Inl VirusNotFound
      | Some a \<Rightarrow> Inr (map (\<lambda>parent. node_id (node_at (heap s) parent))
                        (parents (node_at (heap s) a))))"

subsection \<open>The children iterator\<close>

text \<open>
  \<open>Node::Iterator\<close> wraps a \<open>set_t::iterator\<close> into the \<open>children\<close> set of one node: the node
  whose set it is, and a position in the ascending sequence of that set. The position
  past the last element is \<open>end()\<close>; dereferencing it is undefined in C++, and \<open>None\<close> here.
\<close>

datatype iterator = Iterator (owner: addr) (pos: nat)

definition get_children_begin :: "'id genealogy \<Rightarrow> 'id \<Rightarrow> error + iterator" where
  "get_children_begin s vid =
     (case viruses s vid of None \<Rightarrow> Inl VirusNotFound | Some a \<Rightarrow> Inr (Iterator a 0))"

definition get_children_end :: "'id genealogy \<Rightarrow> 'id \<Rightarrow> error + iterator" where
  "get_children_end s vid =
     (case viruses s vid of
        None \<Rightarrow> Inl VirusNotFound
      | Some a \<Rightarrow> Inr (Iterator a (length (children (node_at (heap s) a)))))"

definition deref :: "'id genealogy \<Rightarrow> iterator \<Rightarrow> 'id virus option" where
  "deref s it =
     (let cs = children (node_at (heap s) (owner it))
      in if pos it < length cs then Some (virus (node_at (heap s) (cs ! pos it))) else None)"

definition incr :: "iterator \<Rightarrow> iterator" where
  "incr it = Iterator (owner it) (Suc (pos it))"

text \<open>
  The caller's loop \<open>for (it = first; it != stop; ++it) out.push_back(*it);\<close>. It gives up
  (\<open>None\<close>) where the loop would dereference \<open>end()\<close>.
\<close>

function iterate :: "'id genealogy \<Rightarrow> iterator \<Rightarrow> iterator \<Rightarrow> 'id virus list option" where
  "iterate s it stop =
     (if it = stop then Some []
      else case deref s it of
             None \<Rightarrow> None
           | Some v \<Rightarrow> map_option ((#) v) (iterate s (incr it) stop))"
  by pat_completeness auto
termination
  by (relation "measure (\<lambda>(s, it, stop). length (children (node_at (heap s) (owner it))) - pos it)")
     (auto simp: deref_def incr_def Let_def split: if_splits)

declare iterate.simps [simp del]

subsection \<open>\<open>connect\<close>\<close>

text \<open>
  The loop of the private \<open>connect(child_id, parent_ids)\<close>. \<open>in_process\<close> records, for each
  insertion into a parent's \<open>children\<close>, the set (by the parent that owns it) and the
  inserted element. The result is \<open>False\<close> when \<open>viruses.at(id)\<close> threw
  \<open>std::out_of_range\<close>.
\<close>

fun connect_loop ::
  "('id \<rightharpoonup> addr) \<Rightarrow> addr \<Rightarrow> 'id list \<Rightarrow> (addr \<times> addr) list \<Rightarrow> 'id heap
     \<Rightarrow> bool \<times> (addr \<times> addr) list \<times> 'id heap" where
  "connect_loop vs child [] in_process h = (True, in_process, h)"
| "connect_loop vs child (vid # ids) in_process h =
     (case vs vid of
        None \<Rightarrow> (False, in_process, h)
      | Some parent \<Rightarrow>
          if child \<in> set (children (node_at h parent)) then connect_loop vs child ids in_process h
          else let h1 = map_children (set_insert child) parent h;
                   in_process1 = in_process @ [(parent, child)];
                   h2 = map_parents (set_insert parent) child h1
               in connect_loop vs child ids in_process1 h2)"

definition rollback_inserts :: "(addr \<times> addr) list \<Rightarrow> 'id heap \<Rightarrow> 'id heap" where
  "rollback_inserts in_process h =
     fold (\<lambda>(owner_node, elem). map_children (set_erase elem) owner_node) in_process h"

definition connect_ids ::
  "'id \<Rightarrow> 'id list \<Rightarrow> 'id genealogy \<Rightarrow> error option \<times> 'id genealogy" where
  "connect_ids child_id parent_ids s =
     (case viruses s child_id of
        None \<Rightarrow> (Some VirusNotFound, s)
      | Some child \<Rightarrow>
          (case connect_loop (viruses s) child parent_ids [] (heap s) of
             (True, in_process, h) \<Rightarrow> (None, s\<lparr>heap := h\<rparr>)
           | (False, in_process, h) \<Rightarrow>
               (Some VirusNotFound, s\<lparr>heap := rollback_inserts in_process h\<rparr>)))"

definition connect :: "'id \<Rightarrow> 'id \<Rightarrow> 'id genealogy \<Rightarrow> error option \<times> 'id genealogy" where
  "connect child_id parent_id s = connect_ids child_id [parent_id] s"

subsection \<open>\<open>create\<close>\<close>

definition create ::
  "addr \<Rightarrow> 'id \<Rightarrow> 'id list \<Rightarrow> 'id genealogy \<Rightarrow> error option \<times> 'id genealogy" where
  "create a vid parent_ids s =
     (if parent_ids = [] then (None, s)
      else if exists s vid then (Some VirusAlreadyCreated, s)
      else let s1 = s\<lparr>heap := fmupd a (Node vid) (heap s), viruses := (viruses s)(vid \<mapsto> a)\<rparr>
           in case connect_ids vid parent_ids s1 of
                (None, s2) \<Rightarrow> (None, s2)
              | (Some e, s2) \<Rightarrow> (Some e, s2\<lparr>viruses := (viruses s2)(vid := None)\<rparr>))"

definition create_single ::
  "addr \<Rightarrow> 'id \<Rightarrow> 'id \<Rightarrow> 'id genealogy \<Rightarrow> error option \<times> 'id genealogy" where
  "create_single a vid parent_id s = create a vid [parent_id] s"

subsection \<open>\<open>remove\<close>\<close>

text \<open>
  One step of the inner loop of the traversal: the counter of the child's identifier in
  \<open>removed_parents\<close> goes up by one (\<open>operator[]\<close> of \<open>std::map\<close> starts it at zero), and
  the child is pushed when the counter equals the size of its \<open>parents\<close>.
\<close>

definition visit_child ::
  "'id heap \<Rightarrow> addr \<Rightarrow> ('id \<Rightarrow> nat) \<times> addr list \<Rightarrow> ('id \<Rightarrow> nat) \<times> addr list" where
  "visit_child h child = (\<lambda>(removed_parents, to_process).
     let k = node_id (node_at h child);
         val = removed_parents k + 1
     in if val = length (parents (node_at h child))
        then (removed_parents(k := val), to_process @ [child])
        else (removed_parents(k := val), to_process))"

text \<open>
  The candidates the traversal can ever push: what some \<open>children\<close> set of the heap holds.
\<close>

definition cands :: "'id heap \<Rightarrow> addr set" where
  "cands h = (\<Union>n \<in> insert (the None) (fmran' h). set (children n))"

definition unsaturated :: "'id heap \<Rightarrow> ('id \<Rightarrow> nat) \<Rightarrow> addr set" where
  "unsaturated h rp =
     {c \<in> cands h. rp (node_id (node_at h c)) < length (parents (node_at h c))}"

lemma finite_cands: "finite (cands h)"
  unfolding cands_def by (rule finite_UN_I) (simp_all add: fmran'_alt_def)

lemma children_in_cands: "set (children (node_at h a)) \<subseteq> cands h"
proof (cases "fmlookup h a")
  case None
  then show ?thesis by (auto simp: cands_def node_at_def)
next
  case (Some n)
  then have "n \<in> fmran' h" by (rule fmran'I)
  with Some show ?thesis by (auto simp: cands_def node_at_def)
qed

lemma visit_child_measure:
  assumes "c \<in> cands h" and "visit_child h c (rp, q) = (rp', q')"
  shows "length q' + card (unsaturated h rp') \<le> length q + card (unsaturated h rp)"
proof -
  let ?k = "node_id (node_at h c)"
  have rp': "rp' = rp(?k := rp ?k + 1)"
    using assms(2) by (auto simp: visit_child_def Let_def split: if_splits)
  have fin: "finite (unsaturated h rp)"
    unfolding unsaturated_def by (simp add: finite_cands)
  have sub: "unsaturated h rp' \<subseteq> unsaturated h rp"
    unfolding unsaturated_def rp' by auto
  show ?thesis
  proof (cases "rp ?k + 1 = length (parents (node_at h c))")
    case True
    then have q': "q' = q @ [c]"
      using assms(2) by (auto simp: visit_child_def Let_def)
    have "c \<in> unsaturated h rp" using True assms(1) by (simp add: unsaturated_def)
    moreover have "c \<notin> unsaturated h rp'" using True by (simp add: unsaturated_def rp')
    ultimately have "unsaturated h rp' \<subset> unsaturated h rp" using sub by blast
    with fin have "card (unsaturated h rp') < card (unsaturated h rp)"
      by (rule psubset_card_mono)
    then show ?thesis by (simp add: q')
  next
    case False
    then have "q' = q"
      using assms(2) by (auto simp: visit_child_def Let_def)
    moreover have "card (unsaturated h rp') \<le> card (unsaturated h rp)"
      using fin sub by (rule card_mono)
    ultimately show ?thesis by simp
  qed
qed

lemma fold_visit_child_measure:
  assumes "set cs \<subseteq> cands h" and "fold (visit_child h) cs (rp, q) = (rp', q')"
  shows "length q' + card (unsaturated h rp') \<le> length q + card (unsaturated h rp)"
  using assms
proof (induction cs arbitrary: rp q)
  case Nil
  then show ?case by simp
next
  case (Cons c cs)
  obtain rp1 q1 where step: "visit_child h c (rp, q) = (rp1, q1)"
    by (cases "visit_child h c (rp, q)")
  have "length q1 + card (unsaturated h rp1) \<le> length q + card (unsaturated h rp)"
    using Cons.prems(1) step by (intro visit_child_measure) auto
  moreover have "length q' + card (unsaturated h rp') \<le> length q1 + card (unsaturated h rp1)"
    using Cons.prems step by (intro Cons.IH) auto
  ultimately show ?case by linarith
qed

text \<open>
  The traversal \<open>while (!to_process.empty())\<close>. The source binds \<open>current\<close> as a reference
  to \<open>to_process.front()\<close> and pops the queue before it reads \<open>current\<close>; the model reads
  the front element first, which is what the reference still shows when the storage of
  the popped element is left as it was. \<open>remove_iterators\<close> holds positions of the map
  \<open>viruses\<close>, modelled by their keys.
\<close>

function bfs ::
  "'id heap \<Rightarrow> addr list \<Rightarrow> addr list \<Rightarrow> 'id list \<Rightarrow> ('id \<Rightarrow> nat) \<Rightarrow> addr list \<times> 'id list" where
  "bfs h [] fully_remove remove_iterators removed_parents = (fully_remove, remove_iterators)"
| "bfs h (current # to_process) fully_remove remove_iterators removed_parents =
     (case fold (visit_child h) (children (node_at h current)) (removed_parents, to_process) of
        (removed_parents1, to_process1) \<Rightarrow>
          bfs h to_process1 (set_insert current fully_remove)
            (remove_iterators @ [node_id (node_at h current)]) removed_parents1)"
  by pat_completeness auto
termination
proof (relation "measure (\<lambda>(h, q, fr, ri, rp). length q + card (unsaturated h rp))")
  show "wf (measure (\<lambda>(h, q, fr, ri, rp). length q + card (unsaturated h rp)))"
    by simp
next
  fix h :: "'a heap" and current to_process fully_remove
    and remove_iterators :: "'a list" and removed_parents x rp1 q1
  assume "(rp1, q1) = fold (visit_child h) (children (node_at h current))
                        (removed_parents, to_process)"
  then have "fold (visit_child h) (children (node_at h current)) (removed_parents, to_process)
               = (rp1, q1)"
    by simp
  with children_in_cands
  have "length q1 + card (unsaturated h rp1)
          \<le> length to_process + card (unsaturated h removed_parents)"
    by (rule fold_visit_child_measure)
  then show "((h, q1, set_insert current fully_remove,
               remove_iterators @ [node_id (node_at h current)], rp1),
              h, current # to_process, fully_remove, remove_iterators, removed_parents)
             \<in> measure (\<lambda>(h, q, fr, ri, rp). length q + card (unsaturated h rp))"
    by simp
qed

declare bfs.simps [simp del]

text \<open>
  \<open>RemoveGuard\<close>: the guarded set (the \<open>parents\<close> or the \<open>children\<close> of a node), the position
  \<open>find\<close> returned (\<open>None\<close> for \<open>end()\<close>) and the \<open>rollback\<close> flag. The destructor erases the
  position when the flag is off. Erasing \<open>end()\<close> is undefined in C++; the model leaves
  the set as it is.
\<close>

datatype set_ref = ParentsOf addr | ChildrenOf addr

record RemoveGuard =
  guarded_set :: set_ref
  to_be_removed :: "addr option"
  rollback :: bool

definition deref_set :: "'id heap \<Rightarrow> set_ref \<Rightarrow> addr list" where
  "deref_set h r = (case r of ParentsOf a \<Rightarrow> parents (node_at h a)
                            | ChildrenOf a \<Rightarrow> children (node_at h a))"

definition new_RemoveGuard :: "'id heap \<Rightarrow> set_ref \<Rightarrow> addr \<Rightarrow> RemoveGuard" where
  "new_RemoveGuard h r node =
     \<lparr>guarded_set = r,
      to_be_removed = (if node \<in> set (deref_set h r) then Some node else None),
      rollback = True\<rparr>"

definition drop_rollback :: "RemoveGuard \<Rightarrow> RemoveGuard" where
  "drop_rollback g = g\<lparr>rollback := False\<rparr>"

definition destroy_RemoveGuard :: "RemoveGuard \<Rightarrow> 'id heap \<Rightarrow> 'id heap" where
  "destroy_RemoveGuard g h =
     (if rollback g then h
      else case to_be_removed g of
             None \<Rightarrow> h
           | Some x \<Rightarrow> (case guarded_set g of
                          ParentsOf a \<Rightarrow> map_parents (set_erase x) a h
                        | ChildrenOf a \<Rightarrow> map_children (set_erase x) a h))"

definition clear_node :: "addr \<Rightarrow> 'id heap \<Rightarrow> 'id heap" where
  "clear_node a h = fmupd a ((node_at h a)\<lparr>parents := [], children := []\<rparr>) h"

definition child_guards :: "'id heap \<Rightarrow> addr list \<Rightarrow> RemoveGuard list" where
  "child_guards h fully_remove =
     concat (map (\<lambda>current.
                map (\<lambda>child. new_RemoveGuard h (ParentsOf child) current)
                  (filter (\<lambda>child. child \<notin> set fully_remove) (children (node_at h current))))
             fully_remove)"

definition parent_guards :: "'id heap \<Rightarrow> addr \<Rightarrow> RemoveGuard list" where
  "parent_guards h begin_node =
     map (\<lambda>parent. new_RemoveGuard h (ChildrenOf parent) begin_node)
       (parents (node_at h begin_node))"

definition remove :: "'id \<Rightarrow> 'id genealogy \<Rightarrow> error option \<times> 'id genealogy" where
  "remove vid s =
     (if vid = get_stem_id s then (Some TriedToRemoveStemVirus, s)
      else case viruses s vid of
        None \<Rightarrow> (Some VirusNotFound, s)
      | Some begin_node \<Rightarrow>
          (case bfs (heap s) [begin_node] [] [] (\<lambda>_. 0) of
             (fully_remove, remove_iterators) \<Rightarrow>
               let remove_edge = child_guards (heap s) fully_remove
                                   @ parent_guards (heap s) begin_node;
                   h1 = fold destroy_RemoveGuard (map drop_rollback remove_edge) (heap s);
                   h2 = fold clear_node fully_remove h1;
                   vs = fold (\<lambda>k m. m(k := None)) remove_iterators (viruses s)
               in (None, s\<lparr>heap := h2, viruses := vs\<rparr>)))"

text \<open>
  Where the behaviour of \<open>remove\<close> is defined. The last loop calls \<open>viruses.erase(iter)\<close>
  once for every entry of \<open>remove_iterators\<close>, and the destructor of every guard erases
  the position its \<open>find\<close> returned. Erasing a position of a \<open>std::map\<close> or \<open>std::set\<close> a
  second time, or erasing \<open>end()\<close>, is undefined in C++. The traversal pushes a node a
  second time when its counter reaches the size of its \<open>parents\<close> after the node has been
  popped, which a cycle through the start node brings about: after \<open>create(1, {1})\<close> the
  call \<open>remove(1)\<close> pops the node of 1 twice and \<open>remove_iterators\<close> holds the position of
  the key 1 twice. The model erases keys, so there a second erasure changes nothing.

  \<open>remove_defined\<close> says of a call that it erases every position once and never \<open>end()\<close>:
  the entries of \<open>remove_iterators\<close> are pairwise different, every one of them is a key
  of \<open>viruses\<close>, and every guard has found its element. Of a call for which it fails the
  result of \<open>remove\<close> above says nothing about the code. A call that throws erases
  nothing.
\<close>

definition remove_defined :: "'id \<Rightarrow> 'id genealogy \<Rightarrow> bool" where
  "remove_defined vid s =
     (if vid = get_stem_id s then True
      else case viruses s vid of
        None \<Rightarrow> True
      | Some begin_node \<Rightarrow>
          (case bfs (heap s) [begin_node] [] [] (\<lambda>_. 0) of
             (fully_remove, remove_iterators) \<Rightarrow>
               distinct remove_iterators
               \<and> list_all (\<lambda>k. viruses s k \<noteq> None) remove_iterators
               \<and> list_all (\<lambda>g. to_be_removed g \<noteq> None)
                   (child_guards (heap s) fully_remove @ parent_guards (heap s) begin_node)))"

subsection \<open>Sequences of operations\<close>

text \<open>
  The public operations that change a store. \<open>create(id, parent_id)\<close> is
  \<open>create(id, {parent_id})\<close>. \<open>allocator_ok\<close> says that the address \<open>create\<close> gets from
  \<open>std::make_shared\<close> is not in use. \<open>run\<close> goes on after an operation that threw, with the
  store this operation left. \<open>admissible allowed\<close> restricts the calls of a sequence;
  \<open>defined_op\<close> allows the calls whose behaviour is defined, which is every \<open>create\<close> and
  \<open>connect\<close> and the calls of \<open>remove\<close> that \<open>remove_defined\<close> describes: in a sequence
  that is admissible for \<open>defined_op\<close> no call erases a position twice or erases \<open>end()\<close>.
\<close>

datatype 'id operation = Create addr 'id "'id list" | Connect 'id 'id | Remove 'id

fun apply_op :: "'id operation \<Rightarrow> 'id genealogy \<Rightarrow> error option \<times> 'id genealogy" where
  "apply_op (Create a vid parent_ids) s = create a vid parent_ids s"
| "apply_op (Connect child_id parent_id) s = connect child_id parent_id s"
| "apply_op (Remove vid) s = remove vid s"

fun allocator_ok :: "'id operation \<Rightarrow> 'id genealogy \<Rightarrow> bool" where
  "allocator_ok (Create a vid parent_ids) s = (a \<notin> fmdom' (heap s))"
| "allocator_ok (Connect child_id parent_id) s = True"
| "allocator_ok (Remove vid) s = True"

fun run :: "'id operation list \<Rightarrow> 'id genealogy \<Rightarrow> 'id genealogy" where
  "run [] s = s"
| "run (op # ops) s = run ops (snd (apply_op op s))"

fun admissible ::
  "('id genealogy \<Rightarrow> 'id operation \<Rightarrow> bool) \<Rightarrow> 'id operation list \<Rightarrow> 'id genealogy \<Rightarrow> bool" where
  "admissible allowed [] s = True"
| "admissible allowed (op # ops) s =
     (allocator_ok op s \<and> allowed s op \<and> admissible allowed ops (snd (apply_op op s)))"

definition any_op :: "'id genealogy \<Rightarrow> 'id operation \<Rightarrow> bool" where
  "any_op s op = True"

definition defined_op :: "'id genealogy \<Rightarrow> 'id operation \<Rightarrow> bool" where
  "defined_op s op = (case op of Remove vid \<Rightarrow> remove_defined vid s | _ \<Rightarrow> True)"

subsection \<open>Example stores\<close>

text \<open>
  The scenario of the specification, for any identifiers \<open>S\<close>, \<open>A\<close>, \<open>B\<close>, \<open>C\<close> and any
  addresses \<open>s\<close>, \<open>a\<close>, \<open>b\<close>, \<open>c\<close> of their nodes.
\<close>

definition scenario ::
  "addr \<Rightarrow> addr \<Rightarrow> addr \<Rightarrow> addr \<Rightarrow> 'id \<Rightarrow> 'id \<Rightarrow> 'id \<Rightarrow> 'id \<Rightarrow> 'id genealogy" where
  "scenario s a b c S A B C =
     snd (create c C [A, B] (snd (create b B [S] (snd (create a A [S] (VirusGenealogy s S))))))"


text \<open>
  The same stores with concrete names: the stem \<open>S\<close> is the identifier 0, allocated at
  address 10; \<open>A\<close>, \<open>B\<close> and \<open>C\<close> are 1, 2 and 3, allocated at 11, 12 and 13.
\<close>

definition scenario_S :: "nat genealogy" where
  "scenario_S = VirusGenealogy 10 0"

definition scenario_SA :: "nat genealogy" where
  "scenario_SA = snd (create 11 1 [0] scenario_S)"

definition scenario_SAB :: "nat genealogy" where
  "scenario_SAB = snd (create 12 2 [0] scenario_SA)"

definition scenario_SABC :: "nat genealogy" where
  "scenario_SABC = snd (create 13 3 [1, 2] scenario_SAB)"

text \<open>
  The store in which \<open>create(3, {1, 7})\<close> calls \<open>connect(3, {1, 7})\<close> on \<open>scenario_SAB\<close>:
  the node of 3 is allocated and entered into \<open>viruses\<close>, and has no edge yet.
\<close>

definition inside_create :: "nat genealogy" where
  "inside_create =
     scenario_SAB\<lparr>heap := fmupd 13 (Node 3) (heap scenario_SAB),
                  viruses := (viruses scenario_SAB)(3 \<mapsto> 13)\<rparr>"

text \<open>Children created in descending order of their identifiers: 2 first, then 1.\<close>

definition descending_ops :: "nat operation list" where
  "descending_ops = [Create 11 2 [0], Create 12 1 [0]]"

definition descending :: "nat genealogy" where
  "descending = run descending_ops (VirusGenealogy 10 0)"

text \<open>
  A run that gives the stem a parent and then removes this parent: 1 becomes its own
  parent, 2 is created below 1, the stem 0 is connected below 2, and 2 is removed.
\<close>

definition cascade_ops :: "nat operation list" where
  "cascade_ops = [Create 11 1 [0], Connect 1 1, Create 12 2 [1], Connect 0 2, Remove 2]"

definition stemless :: "nat genealogy" where
  "stemless = run cascade_ops (VirusGenealogy 10 0)"

definition orphaned :: "nat genealogy" where
  "orphaned = snd (create 13 3 [1] stemless)"

text \<open>
  Two more runs: one connects the stem below its own child; one keeps the graph acyclic
  and uses every operation.
\<close>

definition stem_child_ops :: "nat operation list" where
  "stem_child_ops = [Create 11 1 [0], Connect 0 1]"

definition dag_ops :: "nat operation list" where
  "dag_ops = [Create 11 1 [0], Create 12 2 [0], Connect 2 1, Create 13 3 [1, 2], Remove 1]"

text \<open>
  A run that leaves the stem two children whose identifiers descend, after a \<open>connect\<close>
  and a \<open>remove\<close>; and the run in which \<open>remove\<close> pops a node twice.
\<close>

definition mixed_ops :: "nat operation list" where
  "mixed_ops = [Create 11 3 [0], Create 12 2 [0], Create 13 1 [2], Connect 1 0, Remove 2]"

definition self_parent_ops :: "nat operation list" where
  "self_parent_ops = [Create 11 1 [1], Remove 1]"

subsection \<open>Well-formed stores\<close>

text \<open>
  What the ownership by \<open>shared_ptr\<close> and the map \<open>viruses\<close> guarantee of every store
  the operations build: the stem node is allocated; a key of \<open>viruses\<close> maps to an allocated
  node that carries this key as its identifier; the sets of an allocated node hold
  allocated nodes only. \<open>ordered\<close> says that every set is in strictly ascending order,
  as a \<open>std::set\<close> is.
\<close>

definition well_formed :: "'id genealogy \<Rightarrow> bool" where
  "well_formed s \<longleftrightarrow>
     stemNode s \<in> fmdom' (heap s)
     \<and> (\<forall>vid a. viruses s vid = Some a \<longrightarrow>
            a \<in> fmdom' (heap s) \<and> node_id (node_at (heap s) a) = vid)
     \<and> (\<forall>a \<in> fmdom' (heap s).
            set (parents (node_at (heap s) a)) \<subseteq> fmdom' (heap s)
            \<and> set (children (node_at (heap s) a)) \<subseteq> fmdom' (heap s))"

definition ordered :: "'id heap \<Rightarrow> bool" where
  "ordered h \<longleftrightarrow>
     (\<forall>a \<in> fmdom' h. sorted_wrt (<) (parents (node_at h a))
                      \<and> sorted_wrt (<) (children (node_at h a)))"

subsection \<open>The state of the loop of \<open>connect\<close>\<close>

text \<open>
  After the loop has looked up the identifiers \<open>done\<close>: \<open>processed\<close> are the parents
  it found, \<open>inserted\<close> those of them that did not hold the child before the call.
  \<open>connect_inv\<close> relates the heap \<open>h\<close> and \<open>in_process\<close> at that point to the heap \<open>h0\<close>
  at the start of the call.
\<close>

definition processed :: "('id \<rightharpoonup> addr) \<Rightarrow> 'id list \<Rightarrow> addr set" where
  "processed vs done = {p. \<exists>i \<in> set done. vs i = Some p}"

definition inserted :: "('id \<rightharpoonup> addr) \<Rightarrow> addr \<Rightarrow> 'id heap \<Rightarrow> 'id list \<Rightarrow> addr set" where
  "inserted vs x h0 done = {p \<in> processed vs done. x \<notin> set (children (node_at h0 p))}"

definition connect_inv ::
  "('id \<rightharpoonup> addr) \<Rightarrow> addr \<Rightarrow> 'id heap \<Rightarrow> 'id list \<Rightarrow> (addr \<times> addr) list \<Rightarrow> 'id heap \<Rightarrow> bool" where
  "connect_inv vs x h0 done inp h \<longleftrightarrow>
     fmdom' h = fmdom' h0
     \<and> (\<forall>b. virus (node_at h b) = virus (node_at h0 b))
     \<and> (\<forall>b. children (node_at h b) =
              (if b \<in> inserted vs x h0 done then set_insert x (children (node_at h0 b))
               else children (node_at h0 b)))
     \<and> (\<forall>b. b \<noteq> x \<longrightarrow> parents (node_at h b) = parents (node_at h0 b))
     \<and> set (parents (node_at h x)) = set (parents (node_at h0 x)) \<union> inserted vs x h0 done
     \<and> (sorted_wrt (<) (parents (node_at h0 x)) \<longrightarrow> sorted_wrt (<) (parents (node_at h x)))
     \<and> fst ` set inp = inserted vs x h0 done
     \<and> snd ` set inp \<subseteq> {x}
     \<and> distinct (map fst inp)"

subsection \<open>The effect of the guards of \<open>remove\<close>\<close>

text \<open>
  \<open>erased r gs\<close> lists what the destructors of the guards \<open>gs\<close> erase from the set \<open>r\<close>;
  \<open>removal_heap h r fr\<close> is the heap \<open>remove\<close> leaves when it starts at the node \<open>r\<close> and
  the traversal returns \<open>fr\<close>.
\<close>

definition ref_addr :: "set_ref \<Rightarrow> addr" where
  "ref_addr r = (case r of ParentsOf a \<Rightarrow> a | ChildrenOf a \<Rightarrow> a)"

definition erased :: "set_ref \<Rightarrow> RemoveGuard list \<Rightarrow> addr list" where
  "erased r gs =
     concat (map (\<lambda>g. if \<not> rollback g \<and> guarded_set g = r
                         then (case to_be_removed g of None \<Rightarrow> [] | Some x \<Rightarrow> [x])
                         else []) gs)"

definition removal_heap :: "'id heap \<Rightarrow> addr \<Rightarrow> addr list \<Rightarrow> 'id heap" where
  "removal_heap h r fr =
     fold clear_node fr
       (fold destroy_RemoveGuard (map drop_rollback (child_guards h fr @ parent_guards h r)) h)"

subsection \<open>Invariants of the graph\<close>

text \<open>
  The nodes the map \<open>viruses\<close> holds are \<open>live\<close>; \<open>child_rel\<close> is the edge relation from
  parent to child on a set of nodes.

  \<^item> \<open>stem_kept\<close>: the stem is in \<open>viruses\<close> under its identifier, no node has the stem
    among its children, and no other node carries the identifier of the stem.
  \<^item> \<open>linked\<close>: the sets of live nodes hold live nodes; a node is a child of another
    exactly when that one is among its parents; the edges form no cycle.
  \<^item> \<open>one_root\<close>: the stem has no parent, every other live node has one.

  \<open>never_stem_child\<close> and \<open>keeps_dag\<close> restrict the calls of a sequence: the first forbids
  \<open>connect\<close> with the stem as the child; the second also forbids a \<open>connect\<close> whose parent
  is the child itself or one of its descendants, and a \<open>create\<close> that lists the new
  identifier among its own parents. \<open>defined_never_stem_child\<close> allows the calls with
  defined behaviour that \<open>never_stem_child\<close> allows.
\<close>

definition live :: "'id genealogy \<Rightarrow> addr set" where
  "live s = ran (viruses s)"

definition child_rel :: "'id heap \<Rightarrow> addr set \<Rightarrow> (addr \<times> addr) set" where
  "child_rel h L = {(p, c). p \<in> L \<and> c \<in> set (children (node_at h p))}"

definition stem_kept :: "'id genealogy \<Rightarrow> bool" where
  "stem_kept s \<longleftrightarrow>
     well_formed s
     \<and> viruses s (get_stem_id s) = Some (stemNode s)
     \<and> (\<forall>a \<in> fmdom' (heap s). stemNode s \<notin> set (children (node_at (heap s) a)))
     \<and> (\<forall>a \<in> fmdom' (heap s). node_id (node_at (heap s) a) = get_stem_id s \<longrightarrow> a = stemNode s)"

definition linked :: "'id genealogy \<Rightarrow> bool" where
  "linked s \<longleftrightarrow>
     (\<forall>a \<in> live s. set (parents (node_at (heap s) a)) \<subseteq> live s
                    \<and> set (children (node_at (heap s) a)) \<subseteq> live s)
     \<and> (\<forall>a \<in> live s. \<forall>b \<in> live s.
            b \<in> set (children (node_at (heap s) a)) \<longleftrightarrow> a \<in> set (parents (node_at (heap s) b)))
     \<and> acyclic (child_rel (heap s) (live s))"

definition one_root :: "'id genealogy \<Rightarrow> bool" where
  "one_root s \<longleftrightarrow>
     parents (node_at (heap s) (stemNode s)) = []
     \<and> (\<forall>a \<in> live s. a \<noteq> stemNode s \<longrightarrow> parents (node_at (heap s) a) \<noteq> [])"

definition genealogy_inv :: "'id genealogy \<Rightarrow> bool" where
  "genealogy_inv s \<longleftrightarrow> stem_kept s \<and> ordered (heap s) \<and> linked s \<and> one_root s"

definition never_stem_child :: "'id genealogy \<Rightarrow> 'id operation \<Rightarrow> bool" where
  "never_stem_child s op =
     (case op of Connect child_id parent_id \<Rightarrow> child_id \<noteq> get_stem_id s | _ \<Rightarrow> True)"

definition defined_never_stem_child :: "'id genealogy \<Rightarrow> 'id operation \<Rightarrow> bool" where
  "defined_never_stem_child s op \<longleftrightarrow> defined_op s op \<and> never_stem_child s op"

definition keeps_dag :: "'id genealogy \<Rightarrow> 'id operation \<Rightarrow> bool" where
  "keeps_dag s op =
     (case op of
        Create a vid parent_ids \<Rightarrow> vid \<notin> set parent_ids
      | Connect child_id parent_id \<Rightarrow>
          child_id \<noteq> get_stem_id s
          \<and> (\<forall>x pa. viruses s child_id = Some x \<longrightarrow> viruses s parent_id = Some pa
                 \<longrightarrow> (x, pa) \<notin> (child_rel (heap s) (live s))\<^sup>*)
      | Remove vid \<Rightarrow> True)"

subsection \<open>The state of the traversal of \<open>remove\<close>\<close>

text \<open>
  \<open>graph_ok\<close> collects what the traversal needs of the graph. \<open>counted h fr c\<close> is the
  number of nodes of \<open>fr\<close> that have \<open>c\<close> as a child. \<open>bfs_inv\<close> holds at the head of the
  outer loop, \<open>visit_inv\<close> inside the loop over the children of \<open>cur\<close>, where \<open>D\<close> are the
  children visited so far: the counter of a node is the number of its removed parents,
  and a node other than the start is queued or removed exactly when all its parents
  are removed.
\<close>

definition graph_ok :: "'id heap \<Rightarrow> addr set \<Rightarrow> bool" where
  "graph_ok h L \<longleftrightarrow>
     (\<forall>a \<in> L. set (parents (node_at h a)) \<subseteq> L \<and> set (children (node_at h a)) \<subseteq> L
               \<and> distinct (parents (node_at h a)) \<and> distinct (children (node_at h a)))
     \<and> (\<forall>a \<in> L. \<forall>b \<in> L. b \<in> set (children (node_at h a)) \<longleftrightarrow> a \<in> set (parents (node_at h b)))
     \<and> inj_on (\<lambda>a. node_id (node_at h a)) L
     \<and> acyclic (child_rel h L)"

definition counted :: "'id heap \<Rightarrow> addr list \<Rightarrow> addr \<Rightarrow> nat" where
  "counted h fr c = card {p \<in> set fr. c \<in> set (children (node_at h p))}"

definition visit_inv ::
  "'id heap \<Rightarrow> addr set \<Rightarrow> addr \<Rightarrow> addr \<Rightarrow> addr list \<Rightarrow> addr set \<Rightarrow> ('id \<Rightarrow> nat) \<Rightarrow> addr list
     \<Rightarrow> bool" where
  "visit_inv h L r cur fr D rp q \<longleftrightarrow>
     set q \<subseteq> L \<and> distinct q \<and> set q \<inter> insert cur (set fr) = {}
     \<and> (\<forall>x \<in> set q. (r, x) \<in> (child_rel h L)\<^sup>*)
     \<and> (\<forall>c \<in> L. rp (node_id (node_at h c)) = counted h fr c + (if c \<in> D then 1 else 0))
     \<and> (\<forall>c \<in> L. c \<noteq> r \<longrightarrow>
           (c \<in> set q \<union> insert cur (set fr)
              \<longleftrightarrow> parents (node_at h c) \<noteq> []
                  \<and> rp (node_id (node_at h c)) = length (parents (node_at h c))))"

definition bfs_inv ::
  "'id heap \<Rightarrow> addr set \<Rightarrow> addr \<Rightarrow> addr list \<Rightarrow> addr list \<Rightarrow> ('id \<Rightarrow> nat) \<Rightarrow> bool" where
  "bfs_inv h L r q fr rp \<longleftrightarrow>
     set q \<subseteq> L \<and> set fr \<subseteq> L \<and> distinct q \<and> set q \<inter> set fr = {} \<and> r \<in> set q \<union> set fr
     \<and> (\<forall>x \<in> set q \<union> set fr. (r, x) \<in> (child_rel h L)\<^sup>*)
     \<and> (\<forall>c \<in> L. rp (node_id (node_at h c)) = counted h fr c)
     \<and> (\<forall>c \<in> L. c \<noteq> r \<longrightarrow>
           (c \<in> set q \<union> set fr
              \<longleftrightarrow> parents (node_at h c) \<noteq> []
                  \<and> rp (node_id (node_at h c)) = length (parents (node_at h c))))"

lemmas model_defs =
  create_def VirusGenealogy_def exists_def connect_ids_def connect_def map_children_def
  map_parents_def node_at_def set_insert_def set_erase_def Node_def remove_def
  get_stem_id_def node_id_def visit_child_def child_guards_def parent_guards_def
  new_RemoveGuard_def drop_rollback_def destroy_RemoveGuard_def clear_node_def
  deref_set_def get_parents_def rollback_inserts_def get_children_begin_def
  get_children_end_def bfs.simps

lemmas scenario_defs =
  scenario_S_def scenario_SA_def scenario_SAB_def scenario_SABC_def inside_create_def

section \<open>Lemmas about the heap and the loops\<close>

lemma node_at_fmupd [simp]: "node_at (fmupd a n h) b = (if a = b then n else node_at h b)"
  unfolding node_at_def by simp

lemma fmlookup_node_at: "a \<in> fmdom' h \<Longrightarrow> fmlookup h a = Some (node_at h a)"
  unfolding node_at_def by (cases "fmlookup h a") (auto dest: fmdom'_notI)

lemma node_at_map_children [simp]:
  "node_at (map_children f a h) b =
     (if b = a then (node_at h a)\<lparr>children := f (children (node_at h a))\<rparr> else node_at h b)"
  unfolding map_children_def by simp

lemma node_at_map_parents [simp]:
  "node_at (map_parents f a h) b =
     (if b = a then (node_at h a)\<lparr>parents := f (parents (node_at h a))\<rparr> else node_at h b)"
  unfolding map_parents_def by simp

lemma node_at_clear_node [simp]:
  "node_at (clear_node a h) b =
     (if b = a then (node_at h a)\<lparr>parents := [], children := []\<rparr> else node_at h b)"
  unfolding clear_node_def by simp

lemma fmdom'_map_children [simp]: "fmdom' (map_children f a h) = insert a (fmdom' h)"
  unfolding map_children_def by simp

lemma fmdom'_map_parents [simp]: "fmdom' (map_parents f a h) = insert a (fmdom' h)"
  unfolding map_parents_def by simp

lemma fmdom'_clear_node [simp]: "fmdom' (clear_node a h) = insert a (fmdom' h)"
  unfolding clear_node_def by simp

lemma set_set_insert [simp]: "set (set_insert x xs) = insert x (set xs)"
  unfolding set_insert_def by (auto simp: set_insort_key)

lemma sorted_set_insert: "sorted_wrt (<) xs \<Longrightarrow> sorted_wrt (<) (set_insert x xs)"
  unfolding set_insert_def by (auto simp: strict_sorted_iff sorted_insort distinct_insort)

lemma set_erase_set_insert: "x \<notin> set xs \<Longrightarrow> set_erase x (set_insert x xs) = xs"
  unfolding set_erase_def set_insert_def by simp

lemma set_insert_member: "x \<in> set xs \<Longrightarrow> set_insert x xs = xs"
  by (simp add: set_insert_def)

lemma connect_loop_rule:
  assumes "connect_loop vs child ids inp h = (ok, inp', h')"
    and "Q done inp h"
    and skip: "\<And>done i p inp h. Q done inp h \<Longrightarrow> vs i = Some p
                 \<Longrightarrow> child \<in> set (children (node_at h p)) \<Longrightarrow> Q (done @ [i]) inp h"
    and add: "\<And>done i p inp h. Q done inp h \<Longrightarrow> vs i = Some p
                 \<Longrightarrow> child \<notin> set (children (node_at h p))
                 \<Longrightarrow> Q (done @ [i]) (inp @ [(p, child)])
                       (map_parents (set_insert p) child (map_children (set_insert child) p h))"
  shows "\<exists>done'. Q done' inp' h' \<and>
           (if ok then done' = done @ ids
            else \<exists>i rest. done @ ids = done' @ i # rest \<and> vs i = None)"
  using assms(1,2)
proof (induction ids arbitrary: "done" inp h)
  case Nil
  then show ?case by auto
next
  case (Cons i ids)
  show ?case
  proof (cases "vs i")
    case None
    with Cons.prems show ?thesis by auto
  next
    case (Some p)
    show ?thesis
    proof (cases "child \<in> set (children (node_at h p))")
      case True
      with Some Cons.prems have run: "connect_loop vs child ids inp h = (ok, inp', h')"
        by simp
      have "Q (done @ [i]) inp h" using Cons.prems(2) Some True by (rule skip)
      from Cons.IH [OF run this] show ?thesis by auto
    next
      case False
      let ?h2 = "map_parents (set_insert p) child (map_children (set_insert child) p h)"
      from False Some Cons.prems
      have run: "connect_loop vs child ids (inp @ [(p, child)]) ?h2 = (ok, inp', h')"
        by (simp add: Let_def)
      have "Q (done @ [i]) (inp @ [(p, child)]) ?h2"
        using Cons.prems(2) Some False by (rule add)
      from Cons.IH [OF run this] show ?thesis by auto
    qed
  qed
qed

lemma processed_snoc: "vs i = Some p \<Longrightarrow> processed vs (done @ [i]) = insert p (processed vs done)"
  unfolding processed_def by auto

lemma inserted_snoc:
  "vs i = Some p \<Longrightarrow> inserted vs x h0 (done @ [i]) =
     (if x \<in> set (children (node_at h0 p)) then inserted vs x h0 done
      else insert p (inserted vs x h0 done))"
  unfolding inserted_def by (auto simp: processed_snoc)

lemma connect_inv_skip:
  assumes "connect_inv vs x h0 done inp h" and "vs i = Some p"
    and "x \<in> set (children (node_at h p))"
  shows "connect_inv vs x h0 (done @ [i]) inp h"
proof -
  have ch: "children (node_at h p) =
              (if p \<in> inserted vs x h0 done then set_insert x (children (node_at h0 p))
               else children (node_at h0 p))"
    using assms(1) unfolding connect_inv_def by blast
  have eq: "inserted vs x h0 (done @ [i]) = inserted vs x h0 done"
  proof (cases "p \<in> inserted vs x h0 done")
    case True
    then show ?thesis using assms(2) by (auto simp: inserted_snoc)
  next
    case False
    with ch assms(3) have "x \<in> set (children (node_at h0 p))" by simp
    then show ?thesis using assms(2) by (simp add: inserted_snoc)
  qed
  show ?thesis using assms(1) unfolding connect_inv_def eq .
qed

lemma connect_inv_add:
  assumes inv: "connect_inv vs x h0 done inp h" and "vs i = Some p"
    and "x \<notin> set (children (node_at h p))"
    and "x \<in> fmdom' h0" and "p \<in> fmdom' h0"
  shows "connect_inv vs x h0 (done @ [i]) (inp @ [(p, x)])
           (map_parents (set_insert p) x (map_children (set_insert x) p h))"
proof -
  let ?I = "inserted vs x h0 done"
  let ?h2 = "map_parents (set_insert p) x (map_children (set_insert x) p h)"
  have dom: "fmdom' h = fmdom' h0"
    and vir: "\<And>b. virus (node_at h b) = virus (node_at h0 b)"
    and ch: "\<And>b. children (node_at h b) =
              (if b \<in> ?I then set_insert x (children (node_at h0 b))
               else children (node_at h0 b))"
    and par: "\<And>b. b \<noteq> x \<Longrightarrow> parents (node_at h b) = parents (node_at h0 b)"
    and parx: "set (parents (node_at h x)) = set (parents (node_at h0 x)) \<union> ?I"
    and srt: "sorted_wrt (<) (parents (node_at h0 x)) \<longrightarrow> sorted_wrt (<) (parents (node_at h x))"
    and inp1: "fst ` set inp = ?I" and inp2: "snd ` set inp \<subseteq> {x}"
    and inp3: "distinct (map fst inp)"
    using inv unfolding connect_inv_def by simp_all
  have notin: "p \<notin> ?I"
  proof
    assume "p \<in> ?I"
    then have "x \<in> set (children (node_at h p))" by (simp add: ch)
    with assms(3) show False by simp
  qed
  with ch assms(3) have x0: "x \<notin> set (children (node_at h0 p))" by simp
  have ins: "inserted vs x h0 (done @ [i]) = insert p ?I"
    using assms(2) x0 by (simp add: inserted_snoc)
  have 1: "fmdom' ?h2 = fmdom' h0"
    using dom assms(4,5) by auto
  have 2: "\<forall>b. virus (node_at ?h2 b) = virus (node_at h0 b)"
    using vir by simp
  have 3: "\<forall>b. children (node_at ?h2 b) =
              (if b \<in> insert p ?I then set_insert x (children (node_at h0 b))
               else children (node_at h0 b))"
    using ch notin by auto
  have 4: "\<forall>b. b \<noteq> x \<longrightarrow> parents (node_at ?h2 b) = parents (node_at h0 b)"
    using par by simp
  have 5: "set (parents (node_at ?h2 x)) = set (parents (node_at h0 x)) \<union> insert p ?I"
    using parx by auto
  have 6: "sorted_wrt (<) (parents (node_at h0 x)) \<longrightarrow> sorted_wrt (<) (parents (node_at ?h2 x))"
    using srt by (auto intro: sorted_set_insert)
  have 7: "fst ` set (inp @ [(p, x)]) = insert p ?I"
    using inp1 by auto
  have 8: "snd ` set (inp @ [(p, x)]) \<subseteq> {x}"
    using inp2 by auto
  have 9: "distinct (map fst (inp @ [(p, x)]))"
    using inp3 inp1 notin by auto
  show ?thesis
    unfolding connect_inv_def ins using 1 2 3 4 5 6 7 8 9 by blast
qed

lemma connect_inv_init: "connect_inv vs x h0 [] [] h0"
  unfolding connect_inv_def inserted_def processed_def by simp

lemma connect_loop_effect:
  assumes run: "connect_loop vs x ids [] h0 = (ok, inp', h')"
    and x: "x \<in> fmdom' h0" and vs: "\<forall>i a. vs i = Some a \<longrightarrow> a \<in> fmdom' h0"
  shows "\<exists>done. connect_inv vs x h0 done inp' h' \<and>
           (if ok then done = ids else \<exists>i rest. ids = done @ i # rest \<and> vs i = None)"
proof -
  let ?Q = "connect_inv vs x h0"
  have "\<exists>done'. ?Q done' inp' h' \<and>
           (if ok then done' = [] @ ids
            else \<exists>i rest. [] @ ids = done' @ i # rest \<and> vs i = None)"
    using run connect_inv_init
  proof (rule connect_loop_rule)
    fix "done" i p inp h
    assume "?Q done inp h" "vs i = Some p" "x \<in> set (children (node_at h p))"
    then show "?Q (done @ [i]) inp h" by (rule connect_inv_skip)
  next
    fix "done" i p inp h
    assume a: "?Q done inp h" "vs i = Some p" "x \<notin> set (children (node_at h p))"
    from a(2) have "p \<in> fmdom' h0" using vs by blast
    with a x show "?Q (done @ [i]) (inp @ [(p, x)])
            (map_parents (set_insert p) x (map_children (set_insert x) p h))"
      by (intro connect_inv_add)
  qed
  then show ?thesis by auto
qed

lemma node_eqI:
  "virus n = virus m \<Longrightarrow> parents n = parents m \<Longrightarrow> children n = children m
     \<Longrightarrow> n = (m :: 'id node)"
  by simp

lemma heap_eqI:
  assumes "fmdom' h1 = fmdom' h2" and "\<And>b. b \<in> fmdom' h2 \<Longrightarrow> node_at h1 b = node_at h2 b"
  shows "h1 = h2"
proof (rule fmap_ext)
  fix b
  show "fmlookup h1 b = fmlookup h2 b"
  proof (cases "b \<in> fmdom' h2")
    case True
    then show ?thesis using assms by (simp add: fmlookup_node_at)
  next
    case False
    then show ?thesis using assms(1) by (simp add: fmdom'_notD)
  qed
qed

subsection \<open>iterate\<close>

lemma iterate_drop:
  assumes "k \<le> length (children (node_at (heap s) a))"
  shows "iterate s (Iterator a k) (Iterator a (length (children (node_at (heap s) a))))
           = Some (map (\<lambda>c. virus (node_at (heap s) c)) (drop k (children (node_at (heap s) a))))"
  using assms
proof (induction "length (children (node_at (heap s) a)) - k" arbitrary: k)
  case 0
  then have "k = length (children (node_at (heap s) a))" by simp
  then show ?case by (simp add: iterate.simps)
next
  case (Suc d)
  let ?cs = "children (node_at (heap s) a)"
  from Suc.hyps(2) have lt: "k < length ?cs" by simp
  have d: "d = length ?cs - Suc k" using Suc.hyps(2) by simp
  have IH: "iterate s (Iterator a (Suc k)) (Iterator a (length ?cs))
              = Some (map (\<lambda>c. virus (node_at (heap s) c)) (drop (Suc k) ?cs))"
    using lt by (intro Suc.hyps(1) [OF d]) simp
  have "iterate s (Iterator a k) (Iterator a (length ?cs))
          = map_option ((#) (virus (node_at (heap s) (?cs ! k))))
              (iterate s (Iterator a (Suc k)) (Iterator a (length ?cs)))"
    using lt by (subst iterate.simps) (simp add: deref_def incr_def)
  also have "\<dots> = Some (virus (node_at (heap s) (?cs ! k))
                        # map (\<lambda>c. virus (node_at (heap s) c)) (drop (Suc k) ?cs))"
    by (simp add: IH)
  also have "virus (node_at (heap s) (?cs ! k))
               # map (\<lambda>c. virus (node_at (heap s) c)) (drop (Suc k) ?cs)
             = map (\<lambda>c. virus (node_at (heap s) c)) (drop k ?cs)"
    using lt by (simp add: Cons_nth_drop_Suc [symmetric])
  finally show ?case .
qed

lemma iterate_children:
  "iterate s (Iterator a 0) (Iterator a (length (children (node_at (heap s) a))))
     = Some (map (\<lambda>c. virus (node_at (heap s) c)) (children (node_at (heap s) a)))"
  using iterate_drop [of 0 s a] by simp

subsection \<open>rollback\<close>

lemma rollback_inserts_Nil [simp]: "rollback_inserts [] h = h"
  unfolding rollback_inserts_def by simp

lemma rollback_inserts_Cons [simp]:
  "rollback_inserts ((p, e) # inp) h = rollback_inserts inp (map_children (set_erase e) p h)"
  unfolding rollback_inserts_def by simp

lemma rollback_inserts_frame:
  "virus (node_at (rollback_inserts inp h) b) = virus (node_at h b)
   \<and> parents (node_at (rollback_inserts inp h) b) = parents (node_at h b)
   \<and> fmdom' (rollback_inserts inp h) = fmdom' h \<union> fst ` set inp"
proof (induction inp arbitrary: h)
  case Nil
  show ?case by simp
next
  case (Cons pe inp)
  obtain p e where pe: "pe = (p, e)" by (cases pe)
  show ?case unfolding pe using Cons.IH [of "map_children (set_erase e) p h"] by auto
qed

lemma rollback_inserts_children:
  assumes "distinct (map fst inp)"
  shows "children (node_at (rollback_inserts inp h) b) =
           (case map_of inp b of None \<Rightarrow> children (node_at h b)
                               | Some e \<Rightarrow> set_erase e (children (node_at h b)))"
  using assms
proof (induction inp arbitrary: h)
  case Nil
  show ?case by simp
next
  case (Cons pe inp)
  obtain p e where pe: "pe = (p, e)" by (cases pe)
  from Cons.prems have dist: "distinct (map fst inp)" and notin: "p \<notin> fst ` set inp"
    by (auto simp: pe)
  have none: "map_of inp p = None" using notin by (simp add: map_of_eq_None_iff)
  show ?case
    unfolding pe using Cons.IH [OF dist, of "map_children (set_erase e) p h"] none
    by (auto split: option.splits)
qed

lemma connect_ids_absent_child:
  "viruses s c = None \<Longrightarrow> connect_ids c ids s = (Some VirusNotFound, s)"
  unfolding connect_ids_def by simp

lemma connect_ids_cases:
  assumes c: "viruses s c = Some x" and x: "x \<in> fmdom' (heap s)"
    and vs: "\<forall>i a. viruses s i = Some a \<longrightarrow> a \<in> fmdom' (heap s)"
  shows "(\<exists>inp h'. connect_ids c ids s = (None, s\<lparr>heap := h'\<rparr>)
                  \<and> connect_inv (viruses s) x (heap s) ids inp h')
       \<or> (\<exists>done i rest inp h1. ids = done @ i # rest \<and> viruses s i = None
                  \<and> connect_inv (viruses s) x (heap s) done inp h1
                  \<and> connect_ids c ids s
                        = (Some VirusNotFound, s\<lparr>heap := rollback_inserts inp h1\<rparr>))"
proof -
  obtain ok inp h1 where run: "connect_loop (viruses s) x ids [] (heap s) = (ok, inp, h1)"
    by (cases "connect_loop (viruses s) x ids [] (heap s)")
  have "\<exists>done. connect_inv (viruses s) x (heap s) done inp h1 \<and>
           (if ok then done = ids
            else \<exists>i rest. ids = done @ i # rest \<and> viruses s i = None)"
    by (rule connect_loop_effect [OF run x vs])
  then obtain "done" where inv: "connect_inv (viruses s) x (heap s) done inp h1"
    and fin: "if ok then done = ids else \<exists>i rest. ids = done @ i # rest \<and> viruses s i = None"
    by blast
  show ?thesis
  proof (cases ok)
    case True
    with fin have "done = ids" by simp
    moreover have "connect_ids c ids s = (None, s\<lparr>heap := h1\<rparr>)"
      unfolding connect_ids_def using c run True by simp
    ultimately show ?thesis using inv by blast
  next
    case False
    with fin obtain i rest where "ids = done @ i # rest" "viruses s i = None" by auto
    moreover have "connect_ids c ids s = (Some VirusNotFound, s\<lparr>heap := rollback_inserts inp h1\<rparr>)"
      unfolding connect_ids_def using c run False by simp
    ultimately show ?thesis using inv by blast
  qed
qed

lemma inserted_subset_dom:
  assumes "\<forall>i a. vs i = Some a \<longrightarrow> a \<in> fmdom' h0"
  shows "inserted vs x h0 done \<subseteq> fmdom' h0"
  unfolding inserted_def processed_def using assms by auto

lemma rollback_restores:
  assumes inv: "connect_inv vs x h0 done inp h1"
    and vs: "\<forall>i a. vs i = Some a \<longrightarrow> a \<in> fmdom' h0"
  shows "fmdom' (rollback_inserts inp h1) = fmdom' h0"
    and "virus (node_at (rollback_inserts inp h1) b) = virus (node_at h0 b)"
    and "children (node_at (rollback_inserts inp h1) b) = children (node_at h0 b)"
    and "b \<noteq> x \<Longrightarrow> parents (node_at (rollback_inserts inp h1) b) = parents (node_at h0 b)"
    and "set (parents (node_at (rollback_inserts inp h1) x))
           = set (parents (node_at h0 x)) \<union> inserted vs x h0 done"
    and "sorted_wrt (<) (parents (node_at h0 x))
           \<Longrightarrow> sorted_wrt (<) (parents (node_at (rollback_inserts inp h1) x))"
proof -
  let ?I = "inserted vs x h0 done"
  have dom: "fmdom' h1 = fmdom' h0"
    and vir: "\<And>b. virus (node_at h1 b) = virus (node_at h0 b)"
    and ch: "\<And>b. children (node_at h1 b) =
              (if b \<in> ?I then set_insert x (children (node_at h0 b))
               else children (node_at h0 b))"
    and par: "\<And>b. b \<noteq> x \<Longrightarrow> parents (node_at h1 b) = parents (node_at h0 b)"
    and parx: "set (parents (node_at h1 x)) = set (parents (node_at h0 x)) \<union> ?I"
    and srt: "sorted_wrt (<) (parents (node_at h0 x)) \<longrightarrow> sorted_wrt (<) (parents (node_at h1 x))"
    and inp1: "fst ` set inp = ?I" and inp2: "snd ` set inp \<subseteq> {x}"
    and inp3: "distinct (map fst inp)"
    using inv unfolding connect_inv_def by simp_all
  note fr = rollback_inserts_frame [of inp h1]
  have "?I \<subseteq> fmdom' h0" using vs by (rule inserted_subset_dom)
  then show "fmdom' (rollback_inserts inp h1) = fmdom' h0"
    using fr [of b] dom inp1 by auto
  show "virus (node_at (rollback_inserts inp h1) b) = virus (node_at h0 b)"
    using fr [of b] vir by simp
  show "b \<noteq> x \<Longrightarrow> parents (node_at (rollback_inserts inp h1) b) = parents (node_at h0 b)"
    using fr [of b] par by simp
  show "set (parents (node_at (rollback_inserts inp h1) x))
           = set (parents (node_at h0 x)) \<union> ?I"
    using fr [of x] parx by simp
  show "sorted_wrt (<) (parents (node_at h0 x))
           \<Longrightarrow> sorted_wrt (<) (parents (node_at (rollback_inserts inp h1) x))"
    using fr [of x] srt by simp
  show "children (node_at (rollback_inserts inp h1) b) = children (node_at h0 b)"
  proof (cases "map_of inp b")
    case None
    then have "b \<notin> fst ` set inp" by (simp add: map_of_eq_None_iff)
    then have "b \<notin> ?I" using inp1 by simp
    then show ?thesis using None ch by (simp add: rollback_inserts_children [OF inp3])
  next
    case (Some e)
    then have mem: "(b, e) \<in> set inp" by (rule map_of_SomeD)
    then have "e = x" using inp2 by auto
    moreover from mem have bI: "b \<in> ?I" using inp1 by force
    moreover from bI have "x \<notin> set (children (node_at h0 b))" unfolding inserted_def by simp
    ultimately show ?thesis
      using Some ch by (simp add: rollback_inserts_children [OF inp3] set_erase_set_insert)
  qed
qed

lemma connect_eq:
  "connect c p s =
     (case viruses s c of
        None \<Rightarrow> (Some VirusNotFound, s)
      | Some x \<Rightarrow>
          (case viruses s p of
             None \<Rightarrow> (Some VirusNotFound, s)
           | Some pa \<Rightarrow>
               (None, if x \<in> set (children (node_at (heap s) pa)) then s
                      else s\<lparr>heap := map_parents (set_insert pa) x
                                       (map_children (set_insert x) pa (heap s))\<rparr>)))"
  unfolding connect_def connect_ids_def by (simp split: option.splits)

lemma wf_stem: "well_formed s \<Longrightarrow> stemNode s \<in> fmdom' (heap s)"
  unfolding well_formed_def by simp

lemma wf_viruses:
  "well_formed s \<Longrightarrow> viruses s vid = Some a \<Longrightarrow> a \<in> fmdom' (heap s) \<and> node_id (node_at (heap s) a) = vid"
  unfolding well_formed_def by simp

lemma wf_closed:
  "well_formed s \<Longrightarrow> a \<in> fmdom' (heap s) \<Longrightarrow>
     set (parents (node_at (heap s) a)) \<subseteq> fmdom' (heap s)
     \<and> set (children (node_at (heap s) a)) \<subseteq> fmdom' (heap s)"
  unfolding well_formed_def by simp

lemma node_at_Node [simp]:
  "virus (Node vid) = Virus vid" "parents (Node vid) = []" "children (Node vid) = []"
  unfolding Node_def by simp_all

lemma create_inserted_eq_processed:
  assumes "well_formed s" and "a \<notin> fmdom' (heap s)"
  shows "inserted ((viruses s)(vid \<mapsto> a)) a (fmupd a (Node vid) (heap s)) ps
           = processed ((viruses s)(vid \<mapsto> a)) ps"
proof -
  have *: "a \<notin> set (children (node_at (fmupd a (Node vid) (heap s)) p))"
    if "p \<in> processed ((viruses s)(vid \<mapsto> a)) ps" for p
  proof (cases "p = a")
    case True
    then show ?thesis by simp
  next
    case False
    from that obtain i where "((viruses s)(vid \<mapsto> a)) i = Some p"
      unfolding processed_def by blast
    with False have "viruses s i = Some p" by (simp split: if_splits)
    with assms(1) have "p \<in> fmdom' (heap s)" by (simp add: wf_viruses)
    with assms have "a \<notin> set (children (node_at (heap s) p))"
      using wf_closed [of s p] by auto
    with False show ?thesis by simp
  qed
  show ?thesis unfolding inserted_def using * by blast
qed

lemma create_cases:
  assumes wf: "well_formed s" and fresh: "a \<notin> fmdom' (heap s)" and ne: "ps \<noteq> []"
    and new: "\<not> exists s vid"
  obtains (success) inp h' where
      "create a vid ps s = (None, s\<lparr>heap := h', viruses := (viruses s)(vid \<mapsto> a)\<rparr>)"
      "connect_inv ((viruses s)(vid \<mapsto> a)) a (fmupd a (Node vid) (heap s)) ps inp h'"
  | (failure) i h' where
      "i \<in> set ps" "i \<noteq> vid" "viruses s i = None"
      "create a vid ps s = (Some VirusNotFound, s\<lparr>heap := h'\<rparr>)"
      "fmdom' h' = insert a (fmdom' (heap s))"
      "\<And>b. b \<noteq> a \<Longrightarrow> node_at h' b = node_at (heap s) b"
      "virus (node_at h' a) = Virus vid" "children (node_at h' a) = []"
      "set (parents (node_at h' a)) \<subseteq> insert a (fmdom' (heap s))"
      "sorted_wrt (<) (parents (node_at h' a))"
proof -
  let ?h0 = "fmupd a (Node vid) (heap s)"
  let ?vs = "(viruses s)(vid \<mapsto> a)"
  let ?s1 = "s\<lparr>heap := ?h0, viruses := ?vs\<rparr>"
  have none: "viruses s vid = None" using new unfolding exists_def by simp
  have unfold: "create a vid ps s =
      (case connect_ids vid ps ?s1 of
         (None, s2) \<Rightarrow> (None, s2)
       | (Some e, s2) \<Rightarrow> (Some e, s2\<lparr>viruses := (viruses s2)(vid := None)\<rparr>))"
    unfolding create_def using ne new by (simp add: Let_def)
  have c: "viruses ?s1 vid = Some a" by simp
  have x: "a \<in> fmdom' (heap ?s1)" by simp
  have vs: "\<forall>i b. viruses ?s1 i = Some b \<longrightarrow> b \<in> fmdom' (heap ?s1)"
    using wf_viruses [OF wf] by (auto split: if_splits)
  from connect_ids_cases [OF c x vs, of ps]
  consider (success) inp h' where
      "connect_ids vid ps ?s1 = (None, ?s1\<lparr>heap := h'\<rparr>)"
      "connect_inv (viruses ?s1) a (heap ?s1) ps inp h'"
  | (failure) "done" i rest inp h1 where
      "ps = done @ i # rest" "viruses ?s1 i = None"
      "connect_inv (viruses ?s1) a (heap ?s1) done inp h1"
      "connect_ids vid ps ?s1 = (Some VirusNotFound, ?s1\<lparr>heap := rollback_inserts inp h1\<rparr>)"
    by blast
  then show ?thesis
  proof cases
    case (success inp h')
    have "create a vid ps s = (None, s\<lparr>heap := h', viruses := ?vs\<rparr>)"
      unfolding unfold success(1) by simp
    moreover have "connect_inv ?vs a ?h0 ps inp h'" using success(2) by simp
    ultimately show ?thesis by (rule that(1))
  next
    case (failure "done" i rest inp h1)
    let ?h' = "rollback_inserts inp h1"
    have inv: "connect_inv ?vs a ?h0 done inp h1" using failure(3) by simp
    have vs': "\<forall>j b. ?vs j = Some b \<longrightarrow> b \<in> fmdom' ?h0"
      using vs by simp
    note rb = rollback_restores [OF inv vs']
    have i: "i \<in> set ps" "i \<noteq> vid" "viruses s i = None"
      using failure(1,2) by (auto split: if_splits)
    have restore: "(viruses s)(vid := None) = viruses s"
      using none by (metis fun_upd_triv)
    have res: "create a vid ps s = (Some VirusNotFound, s\<lparr>heap := ?h'\<rparr>)"
      unfolding unfold failure(4) by (simp add: restore)
    have dom: "fmdom' ?h' = insert a (fmdom' (heap s))"
      using rb(1) by simp
    have frame: "node_at ?h' b = node_at (heap s) b" if "b \<noteq> a" for b
    proof (rule node_eqI)
      show "virus (node_at ?h' b) = virus (node_at (heap s) b)"
        using rb(2) [of b] that by simp
      show "parents (node_at ?h' b) = parents (node_at (heap s) b)"
        using rb(4) [of b] that by simp
      show "children (node_at ?h' b) = children (node_at (heap s) b)"
        using rb(3) [of b] that by simp
    qed
    have vir: "virus (node_at ?h' a) = Virus vid" using rb(2) [of a] by simp
    have ch: "children (node_at ?h' a) = []" using rb(3) [of a] by simp
    have sub: "inserted ?vs a ?h0 done \<subseteq> fmdom' ?h0"
      using vs' by (rule inserted_subset_dom)
    have d0: "fmdom' ?h0 = insert a (fmdom' (heap s))" by simp
    have p0: "set (parents (node_at ?h0 a)) = {}" by simp
    have par: "set (parents (node_at ?h' a)) \<subseteq> insert a (fmdom' (heap s))"
      unfolding rb(5) p0 using sub unfolding d0 by blast
    have srt: "sorted_wrt (<) (parents (node_at ?h' a))"
      using rb(6) by simp
    from i res dom frame vir ch par srt show ?thesis by (rule that(2))
  qed
qed

lemma connect_invD:
  assumes "connect_inv vs x h0 done inp h"
  shows "fmdom' h = fmdom' h0"
    and "virus (node_at h b) = virus (node_at h0 b)"
    and "children (node_at h b) =
              (if b \<in> inserted vs x h0 done then set_insert x (children (node_at h0 b))
               else children (node_at h0 b))"
    and "b \<noteq> x \<Longrightarrow> parents (node_at h b) = parents (node_at h0 b)"
    and "set (parents (node_at h x)) = set (parents (node_at h0 x)) \<union> inserted vs x h0 done"
    and "sorted_wrt (<) (parents (node_at h0 x)) \<Longrightarrow> sorted_wrt (<) (parents (node_at h x))"
  using assms unfolding connect_inv_def by simp_all

lemma scenario_SAB_eq:
  "scenario_SAB =
     \<lparr>heap = fmupd 12 \<lparr>virus = Virus 2, parents = [10], children = []\<rparr>
             (fmupd 11 \<lparr>virus = Virus 1, parents = [10], children = []\<rparr>
             (fmupd 10 \<lparr>virus = Virus 0, parents = [], children = [11, 12]\<rparr> fmempty)),
      viruses = [0 \<mapsto> 10, 1 \<mapsto> 11, 2 \<mapsto> 12], stemNode = 10\<rparr>"
  by (simp add: scenario_defs model_defs fmupd_reorder_neq)

lemma wf_scenario_SAB: "well_formed scenario_SAB"
  unfolding scenario_SAB_eq well_formed_def by (simp add: node_id_def)

subsection \<open>Lemmas about \<open>remove\<close> and about sequences of operations\<close>

subsection \<open>Erasing from a set\<close>

lemma sorted_set_erase: "sorted_wrt (<) xs \<Longrightarrow> sorted_wrt (<) (set_erase x xs)"
  unfolding set_erase_def by (simp add: strict_sorted_iff sorted_remove1)

lemma set_set_erase_subset: "set (set_erase x xs) \<subseteq> set xs"
  unfolding set_erase_def by (rule set_remove1_subset)

lemma set_set_erase: "distinct xs \<Longrightarrow> set (set_erase x xs) = set xs - {x}"
  unfolding set_erase_def by simp

lemma distinct_set_erase: "distinct xs \<Longrightarrow> distinct (set_erase x xs)"
  unfolding set_erase_def by simp

lemma fold_set_erase_sorted:
  "sorted_wrt (<) ys \<Longrightarrow> sorted_wrt (<) (fold set_erase xs ys)"
  by (induction xs arbitrary: ys) (simp_all add: sorted_set_erase)

lemma fold_set_erase_subset: "set (fold set_erase xs ys) \<subseteq> set ys"
proof (induction xs arbitrary: ys)
  case Nil
  show ?case by simp
next
  case (Cons x xs)
  have "set (fold set_erase xs (set_erase x ys)) \<subseteq> set (set_erase x ys)" by (rule Cons.IH)
  also have "\<dots> \<subseteq> set ys" by (rule set_set_erase_subset)
  finally show ?case by simp
qed

lemma fold_set_erase_set:
  "distinct ys \<Longrightarrow> set (fold set_erase xs ys) = set ys - set xs"
proof (induction xs arbitrary: ys)
  case Nil
  show ?case by simp
next
  case (Cons x xs)
  from Cons.prems have "distinct (set_erase x ys)" by (rule distinct_set_erase)
  then have "set (fold set_erase xs (set_erase x ys)) = set (set_erase x ys) - set xs"
    by (rule Cons.IH)
  with Cons.prems show ?case by (auto simp: set_set_erase)
qed

subsection \<open>Destroying the guards\<close>

lemma erased_Nil [simp]: "erased r [] = []"
  unfolding erased_def by simp

lemma erased_Cons:
  "erased r (g # gs) =
     (if \<not> rollback g \<and> guarded_set g = r
      then (case to_be_removed g of None \<Rightarrow> [] | Some x \<Rightarrow> [x]) else []) @ erased r gs"
  unfolding erased_def by simp

lemma erased_append [simp]: "erased r (gs @ gs') = erased r gs @ erased r gs'"
  unfolding erased_def by simp

lemma destroy_RemoveGuard_virus [simp]:
  "virus (node_at (destroy_RemoveGuard g h) b) = virus (node_at h b)"
  unfolding destroy_RemoveGuard_def by (simp split: option.splits set_ref.splits)

lemma destroy_RemoveGuard_parents:
  "parents (node_at (destroy_RemoveGuard g h) b)
     = fold set_erase (erased (ParentsOf b) [g]) (parents (node_at h b))"
  unfolding destroy_RemoveGuard_def erased_def
  by (simp split: option.splits set_ref.splits)

lemma destroy_RemoveGuard_children:
  "children (node_at (destroy_RemoveGuard g h) b)
     = fold set_erase (erased (ChildrenOf b) [g]) (children (node_at h b))"
  unfolding destroy_RemoveGuard_def erased_def
  by (simp split: option.splits set_ref.splits)

lemma destroy_RemoveGuard_dom:
  "ref_addr (guarded_set g) \<in> fmdom' h \<Longrightarrow> fmdom' (destroy_RemoveGuard g h) = fmdom' h"
  unfolding destroy_RemoveGuard_def ref_addr_def
  by (auto split: option.splits set_ref.splits)

lemma fold_destroy_virus [simp]:
  "virus (node_at (fold destroy_RemoveGuard gs h) b) = virus (node_at h b)"
  by (induction gs arbitrary: h) simp_all

lemma fold_destroy_parents:
  "parents (node_at (fold destroy_RemoveGuard gs h) b)
     = fold set_erase (erased (ParentsOf b) gs) (parents (node_at h b))"
proof (induction gs arbitrary: h)
  case Nil
  show ?case by simp
next
  case (Cons g gs)
  have "erased (ParentsOf b) (g # gs) = erased (ParentsOf b) [g] @ erased (ParentsOf b) gs"
    by (simp add: erased_Cons)
  then show ?case
    using Cons.IH [of "destroy_RemoveGuard g h"] by (simp add: destroy_RemoveGuard_parents)
qed

lemma fold_destroy_children:
  "children (node_at (fold destroy_RemoveGuard gs h) b)
     = fold set_erase (erased (ChildrenOf b) gs) (children (node_at h b))"
proof (induction gs arbitrary: h)
  case Nil
  show ?case by simp
next
  case (Cons g gs)
  have "erased (ChildrenOf b) (g # gs) = erased (ChildrenOf b) [g] @ erased (ChildrenOf b) gs"
    by (simp add: erased_Cons)
  then show ?case
    using Cons.IH [of "destroy_RemoveGuard g h"] by (simp add: destroy_RemoveGuard_children)
qed

lemma fold_destroy_dom:
  "\<forall>g \<in> set gs. ref_addr (guarded_set g) \<in> fmdom' h
     \<Longrightarrow> fmdom' (fold destroy_RemoveGuard gs h) = fmdom' h"
proof (induction gs arbitrary: h)
  case Nil
  show ?case by simp
next
  case (Cons g gs)
  from Cons.prems have d: "fmdom' (destroy_RemoveGuard g h) = fmdom' h"
    by (simp add: destroy_RemoveGuard_dom)
  with Cons.prems have "\<forall>g' \<in> set gs. ref_addr (guarded_set g') \<in> fmdom' (destroy_RemoveGuard g h)"
    by simp
  from Cons.IH [OF this] d show ?case by simp
qed

subsection \<open>Clearing the removed nodes, erasing their keys\<close>

lemma fold_clear_node:
  "node_at (fold clear_node fr h) b =
     (if b \<in> set fr then (node_at h b)\<lparr>parents := [], children := []\<rparr> else node_at h b)"
  by (induction fr arbitrary: h) auto

lemma fold_clear_dom: "fmdom' (fold clear_node fr h) = fmdom' h \<union> set fr"
  by (induction fr arbitrary: h) auto

lemma fold_erase_keys:
  "fold (\<lambda>k m. m(k := None)) ri vs = vs |` (- set ri)"
proof (induction ri arbitrary: vs)
  case Nil
  show ?case by simp
next
  case (Cons k ri)
  have "fold (\<lambda>k m. m(k := None)) (k # ri) vs = fold (\<lambda>k m. m(k := None)) ri (vs(k := None))"
    by simp
  also have "\<dots> = (vs(k := None)) |` (- set ri)"
    by (rule Cons.IH)
  also have "\<dots> = vs |` (- set (k # ri))"
    by (rule ext) (simp add: restrict_map_def)
  finally show ?case .
qed

lemma set_erased:
  "set (erased r gs) =
     {x. \<exists>g \<in> set gs. \<not> rollback g \<and> guarded_set g = r \<and> to_be_removed g = Some x}"
  unfolding erased_def by (auto split: option.splits if_splits)

lemma drop_new_RemoveGuard [simp]:
  "rollback (drop_rollback (new_RemoveGuard h r node)) = False"
  "guarded_set (drop_rollback (new_RemoveGuard h r node)) = r"
  "to_be_removed (drop_rollback (new_RemoveGuard h r node))
     = (if node \<in> set (deref_set h r) then Some node else None)"
  unfolding drop_rollback_def new_RemoveGuard_def by simp_all

lemma deref_set_simps [simp]:
  "deref_set h (ParentsOf a) = parents (node_at h a)"
  "deref_set h (ChildrenOf a) = children (node_at h a)"
  unfolding deref_set_def by simp_all

lemma ref_addr_simps [simp]: "ref_addr (ParentsOf a) = a" "ref_addr (ChildrenOf a) = a"
  unfolding ref_addr_def by simp_all

lemma set_child_guards:
  "set (map drop_rollback (child_guards h fr)) =
     {drop_rollback (new_RemoveGuard h (ParentsOf child) current) | child current.
        current \<in> set fr \<and> child \<in> set (children (node_at h current)) \<and> child \<notin> set fr}"
  unfolding child_guards_def by auto

lemma set_parent_guards:
  "set (map drop_rollback (parent_guards h r)) =
     {drop_rollback (new_RemoveGuard h (ChildrenOf parent) r) | parent.
        parent \<in> set (parents (node_at h r))}"
  unfolding parent_guards_def by auto

lemma erased_parents_child_guards:
  "set (erased (ParentsOf b) (map drop_rollback (child_guards h fr))) =
     {current \<in> set fr. b \<in> set (children (node_at h current)) \<and> b \<notin> set fr
                        \<and> current \<in> set (parents (node_at h b))}"
proof (intro equalityI subsetI)
  fix x
  assume "x \<in> set (erased (ParentsOf b) (map drop_rollback (child_guards h fr)))"
  then show "x \<in> {current \<in> set fr. b \<in> set (children (node_at h current)) \<and> b \<notin> set fr
                        \<and> current \<in> set (parents (node_at h b))}"
    unfolding set_erased set_child_guards by (auto split: if_splits)
next
  fix x
  assume x: "x \<in> {current \<in> set fr. b \<in> set (children (node_at h current)) \<and> b \<notin> set fr
                        \<and> current \<in> set (parents (node_at h b))}"
  let ?g = "drop_rollback (new_RemoveGuard h (ParentsOf b) x)"
  from x have "?g \<in> set (map drop_rollback (child_guards h fr))"
    unfolding set_child_guards by blast
  moreover from x have "\<not> rollback ?g \<and> guarded_set ?g = ParentsOf b \<and> to_be_removed ?g = Some x"
    by simp
  ultimately show "x \<in> set (erased (ParentsOf b) (map drop_rollback (child_guards h fr)))"
    unfolding set_erased by blast
qed

lemma erased_children_child_guards:
  "erased (ChildrenOf b) (map drop_rollback (child_guards h fr)) = []"
proof -
  have "set (erased (ChildrenOf b) (map drop_rollback (child_guards h fr))) = {}"
    unfolding set_erased set_child_guards by auto
  then show ?thesis by simp
qed

lemma erased_parents_parent_guards:
  "erased (ParentsOf b) (map drop_rollback (parent_guards h r)) = []"
proof -
  have "set (erased (ParentsOf b) (map drop_rollback (parent_guards h r))) = {}"
    unfolding set_erased set_parent_guards by auto
  then show ?thesis by simp
qed

lemma erased_children_parent_guards_aux:
  "erased (ChildrenOf b) (map (\<lambda>parent. drop_rollback (new_RemoveGuard h (ChildrenOf parent) r)) ps)
     = map (\<lambda>_. r) (filter (\<lambda>p. p = b \<and> r \<in> set (children (node_at h p))) ps)"
  by (induction ps) (simp_all add: erased_Cons)

lemma erased_children_parent_guards:
  "erased (ChildrenOf b) (map drop_rollback (parent_guards h r))
     = map (\<lambda>_. r) (filter (\<lambda>p. p = b \<and> r \<in> set (children (node_at h p)))
                       (parents (node_at h r)))"
  unfolding parent_guards_def using erased_children_parent_guards_aux [of b h r]
  by (simp add: comp_def)

lemma child_guards_owner:
  "g \<in> set (map drop_rollback (child_guards h fr))
     \<Longrightarrow> \<exists>current \<in> set fr. ref_addr (guarded_set g) \<in> set (children (node_at h current))"
  unfolding set_child_guards by auto

lemma parent_guards_owner:
  "g \<in> set (map drop_rollback (parent_guards h r))
     \<Longrightarrow> ref_addr (guarded_set g) \<in> set (parents (node_at h r))"
  unfolding set_parent_guards by auto

subsection \<open>The traversal\<close>

lemma visit_child_queue:
  "visit_child h c (rp, q) = (rp', q') \<Longrightarrow> set q' \<subseteq> insert c (set q)"
  unfolding visit_child_def by (auto simp: Let_def split: if_splits)

lemma fold_visit_child_queue:
  "fold (visit_child h) cs (rp, q) = (rp', q') \<Longrightarrow> set q' \<subseteq> set q \<union> set cs"
proof (induction cs arbitrary: rp q)
  case Nil
  then show ?case by simp
next
  case (Cons c cs)
  obtain rp1 q1 where step: "visit_child h c (rp, q) = (rp1, q1)"
    by (cases "visit_child h c (rp, q)")
  then have "set q1 \<subseteq> insert c (set q)" by (rule visit_child_queue)
  moreover have "set q' \<subseteq> set q1 \<union> set cs"
    using Cons.prems step by (intro Cons.IH) simp
  ultimately show ?case by auto
qed

lemma fold_visit_child_queue_mono:
  "fold (visit_child h) cs (rp, q) = (rp', q') \<Longrightarrow> set q \<subseteq> set q'"
proof (induction cs arbitrary: rp q)
  case Nil
  then show ?case by simp
next
  case (Cons c cs)
  obtain rp1 q1 where step: "visit_child h c (rp, q) = (rp1, q1)"
    by (cases "visit_child h c (rp, q)")
  then have "set q \<subseteq> set q1"
    unfolding visit_child_def by (auto simp: Let_def split: if_splits)
  moreover have "set q1 \<subseteq> set q'"
    using Cons.prems step by (intro Cons.IH) simp
  ultimately show ?case by auto
qed

lemma bfs_subset:
  "\<forall>a \<in> A. set (children (node_at h a)) \<subseteq> A \<Longrightarrow> set q \<subseteq> A \<Longrightarrow> set fr \<subseteq> A
     \<Longrightarrow> bfs h q fr ri rp = (fr', ri') \<Longrightarrow> set fr' \<subseteq> A"
proof (induction h q fr ri rp rule: bfs.induct)
  case (1 h fully_remove remove_iterators removed_parents)
  then show ?case by (simp add: bfs.simps)
next
  case (2 h current to_process fully_remove remove_iterators removed_parents)
  note closed = "2.prems"(1)
  obtain rp1 q1 where f: "fold (visit_child h) (children (node_at h current))
                            (removed_parents, to_process) = (rp1, q1)"
    by (cases "fold (visit_child h) (children (node_at h current)) (removed_parents, to_process)")
  from "2.prems"(2) have cur: "current \<in> A" and rest: "set to_process \<subseteq> A" by simp_all
  from fold_visit_child_queue [OF f] rest cur closed have q1: "set q1 \<subseteq> A" by blast
  have fr: "set (set_insert current fully_remove) \<subseteq> A"
    using cur "2.prems"(3) by simp
  have run: "bfs h q1 (set_insert current fully_remove)
               (remove_iterators @ [node_id (node_at h current)]) rp1 = (fr', ri')"
    using "2.prems"(4) f by (simp add: bfs.simps)
  show ?case
    using "2.IH" [OF f [symmetric] closed q1 fr run] .
qed

lemma bfs_keys:
  "set ri = (\<lambda>a. node_id (node_at h a)) ` set fr \<Longrightarrow> bfs h q fr ri rp = (fr', ri')
     \<Longrightarrow> set ri' = (\<lambda>a. node_id (node_at h a)) ` set fr' \<and> set fr \<union> set q \<subseteq> set fr'"
proof (induction h q fr ri rp rule: bfs.induct)
  case (1 h fully_remove remove_iterators removed_parents)
  then show ?case by (simp add: bfs.simps)
next
  case (2 h current to_process fully_remove remove_iterators removed_parents)
  obtain rp1 q1 where f: "fold (visit_child h) (children (node_at h current))
                            (removed_parents, to_process) = (rp1, q1)"
    by (cases "fold (visit_child h) (children (node_at h current)) (removed_parents, to_process)")
  have keys: "set (remove_iterators @ [node_id (node_at h current)])
                = (\<lambda>a. node_id (node_at h a)) ` set (set_insert current fully_remove)"
    using "2.prems"(1) by auto
  have run: "bfs h q1 (set_insert current fully_remove)
               (remove_iterators @ [node_id (node_at h current)]) rp1 = (fr', ri')"
    using "2.prems"(2) f by (simp add: bfs.simps)
  have q1: "set to_process \<subseteq> set q1"
    using f by (rule fold_visit_child_queue_mono)
  from "2.IH" [OF f [symmetric] keys run] q1 show ?case by auto
qed

lemma remove_eq:
  "remove vid s =
     (if vid = get_stem_id s then (Some TriedToRemoveStemVirus, s)
      else case viruses s vid of
        None \<Rightarrow> (Some VirusNotFound, s)
      | Some r \<Rightarrow>
          (None, s\<lparr>heap := removal_heap (heap s) r (fst (bfs (heap s) [r] [] [] (\<lambda>_. 0))),
                   viruses := viruses s |` (- set (snd (bfs (heap s) [r] [] [] (\<lambda>_. 0))))\<rparr>))"
  unfolding remove_def removal_heap_def
  by (simp add: Let_def fold_erase_keys split: option.splits prod.splits)

lemma removal_heap_virus [simp]:
  "virus (node_at (removal_heap h r fr) b) = virus (node_at h b)"
  unfolding removal_heap_def by (simp add: fold_clear_node)

lemma removal_heap_removed:
  "b \<in> set fr \<Longrightarrow> parents (node_at (removal_heap h r fr) b) = []
                     \<and> children (node_at (removal_heap h r fr) b) = []"
  unfolding removal_heap_def by (simp add: fold_clear_node)

lemma removal_heap_parents:
  "b \<notin> set fr \<Longrightarrow> parents (node_at (removal_heap h r fr) b)
     = fold set_erase (erased (ParentsOf b) (map drop_rollback (child_guards h fr)))
         (parents (node_at h b))"
  unfolding removal_heap_def
  by (simp add: fold_clear_node fold_destroy_parents erased_parents_parent_guards)

lemma removal_heap_children:
  "b \<notin> set fr \<Longrightarrow> children (node_at (removal_heap h r fr) b)
     = fold set_erase (map (\<lambda>_. r) (filter (\<lambda>p. p = b \<and> r \<in> set (children (node_at h p)))
                                        (parents (node_at h r))))
         (children (node_at h b))"
  unfolding removal_heap_def
  by (simp add: fold_clear_node fold_destroy_children erased_children_child_guards
        erased_children_parent_guards)

lemma removal_heap_subsets:
  "set (parents (node_at (removal_heap h r fr) b)) \<subseteq> set (parents (node_at h b))"
  "set (children (node_at (removal_heap h r fr) b)) \<subseteq> set (children (node_at h b))"
  using removal_heap_removed [of b fr h r] removal_heap_parents [of b fr h r]
    removal_heap_children [of b fr h r] fold_set_erase_subset
  by (cases "b \<in> set fr"; simp)+

lemma removal_heap_sorted:
  "sorted_wrt (<) (parents (node_at h b))
     \<Longrightarrow> sorted_wrt (<) (parents (node_at (removal_heap h r fr) b))"
  "sorted_wrt (<) (children (node_at h b))
     \<Longrightarrow> sorted_wrt (<) (children (node_at (removal_heap h r fr) b))"
  using removal_heap_removed [of b fr h r] removal_heap_parents [of b fr h r]
    removal_heap_children [of b fr h r] fold_set_erase_sorted
  by (cases "b \<in> set fr"; simp)+

lemma removal_heap_dom:
  assumes closed: "\<forall>a \<in> fmdom' h. set (parents (node_at h a)) \<subseteq> fmdom' h
                                  \<and> set (children (node_at h a)) \<subseteq> fmdom' h"
    and r: "r \<in> fmdom' h" and fr: "set fr \<subseteq> fmdom' h"
  shows "fmdom' (removal_heap h r fr) = fmdom' h"
proof -
  let ?gs = "map drop_rollback (child_guards h fr @ parent_guards h r)"
  have "\<forall>g \<in> set ?gs. ref_addr (guarded_set g) \<in> fmdom' h"
  proof
    fix g assume "g \<in> set ?gs"
    then consider "g \<in> set (map drop_rollback (child_guards h fr))"
      | "g \<in> set (map drop_rollback (parent_guards h r))" by auto
    then show "ref_addr (guarded_set g) \<in> fmdom' h"
    proof cases
      case 1
      from child_guards_owner [OF this] closed fr show ?thesis by blast
    next
      case 2
      from parent_guards_owner [OF this] closed r show ?thesis by blast
    qed
  qed
  then have "fmdom' (fold destroy_RemoveGuard ?gs h) = fmdom' h" by (rule fold_destroy_dom)
  then show ?thesis unfolding removal_heap_def using fr by (auto simp: fold_clear_dom)
qed

lemma wf_bfs_allocated:
  assumes "well_formed s" and "viruses s vid = Some r"
  shows "set (fst (bfs (heap s) [r] [] [] (\<lambda>_. 0))) \<subseteq> fmdom' (heap s)"
proof -
  obtain fr ri where b: "bfs (heap s) [r] [] [] (\<lambda>_. 0) = (fr, ri)"
    by (cases "bfs (heap s) [r] [] [] (\<lambda>_. 0)")
  have closed: "\<forall>a \<in> fmdom' (heap s). set (children (node_at (heap s) a)) \<subseteq> fmdom' (heap s)"
    using assms(1) unfolding well_formed_def by simp
  have "set [r] \<subseteq> fmdom' (heap s)" using assms by (simp add: wf_viruses)
  from bfs_subset [OF closed this _ b] show ?thesis unfolding b by simp
qed

lemma wf_remove:
  assumes "well_formed s"
  shows "well_formed (snd (remove vid s))"
proof (cases "vid \<noteq> get_stem_id s \<and> viruses s vid \<noteq> None")
  case False
  then show ?thesis using assms by (auto simp: remove_eq)
next
  case True
  then obtain r where r: "viruses s vid = Some r" and ns: "vid \<noteq> get_stem_id s" by auto
  let ?fr = "fst (bfs (heap s) [r] [] [] (\<lambda>_. 0))"
  let ?ri = "snd (bfs (heap s) [r] [] [] (\<lambda>_. 0))"
  let ?h = "removal_heap (heap s) r ?fr"
  have eq: "snd (remove vid s) = s\<lparr>heap := ?h, viruses := viruses s |` (- set ?ri)\<rparr>"
    using r ns by (simp add: remove_eq)
  have closed: "\<forall>a \<in> fmdom' (heap s). set (parents (node_at (heap s) a)) \<subseteq> fmdom' (heap s)
                                  \<and> set (children (node_at (heap s) a)) \<subseteq> fmdom' (heap s)"
    using assms unfolding well_formed_def by simp
  have rdom: "r \<in> fmdom' (heap s)" using assms r by (simp add: wf_viruses)
  have dom: "fmdom' ?h = fmdom' (heap s)"
    using closed rdom wf_bfs_allocated [OF assms r] by (rule removal_heap_dom)
  have 1: "stemNode s \<in> fmdom' ?h" using dom assms by (simp add: wf_stem)
  have 2: "\<forall>k a. (viruses s |` (- set ?ri)) k = Some a \<longrightarrow>
             a \<in> fmdom' ?h \<and> node_id (node_at ?h a) = k"
    using dom wf_viruses [OF assms] by (auto simp: node_id_def restrict_map_def split: if_splits)
  have 3: "\<forall>a \<in> fmdom' ?h. set (parents (node_at ?h a)) \<subseteq> fmdom' ?h
                           \<and> set (children (node_at ?h a)) \<subseteq> fmdom' ?h"
    unfolding dom using closed removal_heap_subsets [of "heap s" r ?fr] by blast
  show ?thesis unfolding eq well_formed_def using 1 2 3 by simp
qed

lemma ordered_remove:
  assumes "well_formed s" and "ordered (heap s)"
  shows "ordered (heap (snd (remove vid s)))"
proof (cases "vid \<noteq> get_stem_id s \<and> viruses s vid \<noteq> None")
  case False
  then show ?thesis using assms by (auto simp: remove_eq)
next
  case True
  then obtain r where r: "viruses s vid = Some r" and ns: "vid \<noteq> get_stem_id s" by auto
  let ?fr = "fst (bfs (heap s) [r] [] [] (\<lambda>_. 0))"
  let ?h = "removal_heap (heap s) r ?fr"
  have eq: "heap (snd (remove vid s)) = ?h"
    using r ns by (simp add: remove_eq)
  have closed: "\<forall>a \<in> fmdom' (heap s). set (parents (node_at (heap s) a)) \<subseteq> fmdom' (heap s)
                                  \<and> set (children (node_at (heap s) a)) \<subseteq> fmdom' (heap s)"
    using assms unfolding well_formed_def by simp
  have rdom: "r \<in> fmdom' (heap s)" using assms r by (simp add: wf_viruses)
  have dom: "fmdom' ?h = fmdom' (heap s)"
    using closed rdom wf_bfs_allocated [OF assms(1) r] by (rule removal_heap_dom)
  show ?thesis
    unfolding eq ordered_def dom using assms(2) removal_heap_sorted [of "heap s" _ r ?fr]
    unfolding ordered_def by blast
qed

lemma wf_VirusGenealogy: "well_formed (VirusGenealogy a stem_id)"
  unfolding well_formed_def VirusGenealogy_def by (simp add: node_id_def)

lemma ordered_VirusGenealogy: "ordered (heap (VirusGenealogy a stem_id))"
  unfolding ordered_def VirusGenealogy_def by simp

lemma wf_closedD:
  "well_formed s \<Longrightarrow> a \<in> fmdom' (heap s) \<Longrightarrow> c \<in> set (children (node_at (heap s) a))
     \<Longrightarrow> c \<in> fmdom' (heap s)"
  "well_formed s \<Longrightarrow> a \<in> fmdom' (heap s) \<Longrightarrow> p \<in> set (parents (node_at (heap s) a))
     \<Longrightarrow> p \<in> fmdom' (heap s)"
  using wf_closed [of s a] by auto

lemma wf_connect:
  assumes "well_formed s"
  shows "well_formed (snd (connect c p s))"
proof (cases "viruses s c")
  case None
  then show ?thesis using assms by (simp add: connect_eq)
next
  case (Some x)
  show ?thesis
  proof (cases "viruses s p")
    case None
    then show ?thesis using assms Some by (simp add: connect_eq)
  next
    case pa: (Some pa)
    from assms Some pa have dom: "x \<in> fmdom' (heap s)" "pa \<in> fmdom' (heap s)"
      by (simp_all add: wf_viruses)
    show ?thesis
    proof (cases "x \<in> set (children (node_at (heap s) pa))")
      case True
      then show ?thesis using assms Some pa by (simp add: connect_eq)
    next
      case False
      let ?h = "map_parents (set_insert pa) x (map_children (set_insert x) pa (heap s))"
      have eq: "snd (connect c p s) = s\<lparr>heap := ?h\<rparr>"
        using Some pa False by (simp add: connect_eq)
      have d: "fmdom' ?h = fmdom' (heap s)" using dom by auto
      have 1: "stemNode s \<in> fmdom' ?h" unfolding d using assms by (rule wf_stem)
      have 2: "\<forall>k a. viruses s k = Some a \<longrightarrow> a \<in> fmdom' ?h \<and> node_id (node_at ?h a) = k"
        unfolding d using wf_viruses [OF assms] by (auto simp: node_id_def)
      have 3: "\<forall>a \<in> fmdom' ?h. set (parents (node_at ?h a)) \<subseteq> fmdom' ?h
                               \<and> set (children (node_at ?h a)) \<subseteq> fmdom' ?h"
      proof
        fix b assume "b \<in> fmdom' ?h"
        then have b: "b \<in> fmdom' (heap s)" unfolding d .
        note cl = wf_closed [OF assms b]
        show "set (parents (node_at ?h b)) \<subseteq> fmdom' ?h
                \<and> set (children (node_at ?h b)) \<subseteq> fmdom' ?h"
          unfolding d using cl dom by auto
      qed
      show ?thesis unfolding eq well_formed_def using 1 2 3 by simp
    qed
  qed
qed

lemma ordered_connect:
  assumes "well_formed s" and "ordered (heap s)"
  shows "ordered (heap (snd (connect c p s)))"
proof (cases "viruses s c")
  case None
  then show ?thesis using assms by (simp add: connect_eq)
next
  case (Some x)
  show ?thesis
  proof (cases "viruses s p")
    case None
    then show ?thesis using assms Some by (simp add: connect_eq)
  next
    case pa: (Some pa)
    from assms Some pa have dom: "x \<in> fmdom' (heap s)" "pa \<in> fmdom' (heap s)"
      by (simp_all add: wf_viruses)
    show ?thesis
    proof (cases "x \<in> set (children (node_at (heap s) pa))")
      case True
      then show ?thesis using assms Some pa by (simp add: connect_eq)
    next
      case False
      let ?h = "map_parents (set_insert pa) x (map_children (set_insert x) pa (heap s))"
      have eq: "heap (snd (connect c p s)) = ?h"
        using Some pa False by (simp add: connect_eq)
      have d: "fmdom' ?h = fmdom' (heap s)" using dom by auto
      show ?thesis
        unfolding eq ordered_def d using assms(2) unfolding ordered_def
        by (auto intro: sorted_set_insert)
    qed
  qed
qed

lemma wf_create:
  assumes wf: "well_formed s" and fresh: "a \<notin> fmdom' (heap s)"
  shows "well_formed (snd (create a vid ps s))"
proof (cases "ps \<noteq> [] \<and> \<not> exists s vid")
  case False
  then show ?thesis using wf unfolding create_def by auto
next
  case True
  then have ne: "ps \<noteq> []" and new: "\<not> exists s vid" by simp_all
  let ?h0 = "fmupd a (Node vid) (heap s)"
  let ?vs = "(viruses s)(vid \<mapsto> a)"
  from wf fresh ne new show ?thesis
  proof (cases rule: create_cases)
    case (failure i h')
    have 1: "stemNode s \<in> fmdom' h'" using failure(5) wf by (simp add: wf_stem)
    have 2: "\<forall>k b. viruses s k = Some b \<longrightarrow> b \<in> fmdom' h' \<and> node_id (node_at h' b) = k"
    proof (intro allI impI)
      fix k b assume kb: "viruses s k = Some b"
      with wf have b: "b \<in> fmdom' (heap s)" "node_id (node_at (heap s) b) = k"
        by (simp_all add: wf_viruses)
      with fresh have "b \<noteq> a" by auto
      with failure(6) [of b] b failure(5)
      show "b \<in> fmdom' h' \<and> node_id (node_at h' b) = k" by simp
    qed
    have 3: "\<forall>b \<in> fmdom' h'. set (parents (node_at h' b)) \<subseteq> fmdom' h'
                               \<and> set (children (node_at h' b)) \<subseteq> fmdom' h'"
    proof
      fix b assume "b \<in> fmdom' h'"
      show "set (parents (node_at h' b)) \<subseteq> fmdom' h' \<and> set (children (node_at h' b)) \<subseteq> fmdom' h'"
      proof (cases "b = a")
        case True
        then show ?thesis using failure(5,8,9) by simp
      next
        case False
        with \<open>b \<in> fmdom' h'\<close> failure(5) have "b \<in> fmdom' (heap s)" by simp
        from wf_closed [OF wf this] failure(6) [OF False] failure(5) show ?thesis by auto
      qed
    qed
    show ?thesis unfolding failure(4) well_formed_def using 1 2 3 by simp
  next
    case (success inp h')
    note inv = connect_invD [OF success(2)]
    have ins: "inserted ?vs a ?h0 ps \<subseteq> fmdom' ?h0"
      by (rule inserted_subset_dom) (use wf_viruses [OF wf] in \<open>auto split: if_splits\<close>)
    have d: "fmdom' h' = insert a (fmdom' (heap s))" using inv(1) by simp
    have 1: "stemNode s \<in> fmdom' h'" using d wf by (simp add: wf_stem)
    have 2: "\<forall>k b. ?vs k = Some b \<longrightarrow> b \<in> fmdom' h' \<and> node_id (node_at h' b) = k"
    proof (intro allI impI)
      fix k b assume kb: "?vs k = Some b"
      show "b \<in> fmdom' h' \<and> node_id (node_at h' b) = k"
      proof (cases "k = vid")
        case True
        with kb have "b = a" by simp
        then show ?thesis using d inv(2) [of a] True by (simp add: node_id_def)
      next
        case False
        with kb have "viruses s k = Some b" by simp
        with wf have b: "b \<in> fmdom' (heap s)" "node_id (node_at (heap s) b) = k"
          by (simp_all add: wf_viruses)
        with fresh have "b \<noteq> a" by auto
        then show ?thesis using d inv(2) [of b] b by (simp add: node_id_def)
      qed
    qed
    have 3: "\<forall>b \<in> fmdom' h'. set (parents (node_at h' b)) \<subseteq> fmdom' h'
                               \<and> set (children (node_at h' b)) \<subseteq> fmdom' h'"
    proof
      fix b assume bd: "b \<in> fmdom' h'"
      have ch0: "set (children (node_at ?h0 b)) \<subseteq> fmdom' h'"
        using bd d wf_closed [OF wf, of b] by (cases "b = a") auto
      have ch: "set (children (node_at h' b)) \<subseteq> fmdom' h'"
        using inv(3) [of b] ch0 d by (auto split: if_splits)
      have par: "set (parents (node_at h' b)) \<subseteq> fmdom' h'"
      proof (cases "b = a")
        case True
        then show ?thesis using inv(5) ins d by auto
      next
        case False
        with bd d have "b \<in> fmdom' (heap s)" by simp
        from wf_closed [OF wf this] inv(4) [OF False] False d show ?thesis by auto
      qed
      from ch par show "set (parents (node_at h' b)) \<subseteq> fmdom' h'
                          \<and> set (children (node_at h' b)) \<subseteq> fmdom' h'" by simp
    qed
    show ?thesis unfolding success(1) well_formed_def using 1 2 3 by simp
  qed
qed

lemma ordered_create:
  assumes wf: "well_formed s" and fresh: "a \<notin> fmdom' (heap s)" and ord: "ordered (heap s)"
  shows "ordered (heap (snd (create a vid ps s)))"
proof (cases "ps \<noteq> [] \<and> \<not> exists s vid")
  case False
  then show ?thesis using ord unfolding create_def by auto
next
  case True
  then have ne: "ps \<noteq> []" and new: "\<not> exists s vid" by simp_all
  let ?h0 = "fmupd a (Node vid) (heap s)"
  have ord0: "sorted_wrt (<) (parents (node_at ?h0 b)) \<and> sorted_wrt (<) (children (node_at ?h0 b))"
    if "b \<in> insert a (fmdom' (heap s))" for b
    using that ord unfolding ordered_def by (cases "b = a") auto
  from wf fresh ne new show ?thesis
  proof (cases rule: create_cases)
    case (failure i h')
    have "sorted_wrt (<) (parents (node_at h' b)) \<and> sorted_wrt (<) (children (node_at h' b))"
      if "b \<in> fmdom' h'" for b
    proof (cases "b = a")
      case True
      then show ?thesis using failure(8,10) by simp
    next
      case False
      with that failure(5) have "b \<in> insert a (fmdom' (heap s))" by simp
      from ord0 [OF this] failure(6) [OF False] False show ?thesis by simp
    qed
    then show ?thesis unfolding failure(4) ordered_def by simp
  next
    case (success inp h')
    note inv = connect_invD [OF success(2)]
    have d: "fmdom' h' = insert a (fmdom' (heap s))" using inv(1) by simp
    have "sorted_wrt (<) (parents (node_at h' b)) \<and> sorted_wrt (<) (children (node_at h' b))"
      if "b \<in> fmdom' h'" for b
    proof -
      from that d have b: "b \<in> insert a (fmdom' (heap s))" by simp
      have ch: "sorted_wrt (<) (children (node_at h' b))"
        using inv(3) [of b] ord0 [OF b] by (auto intro: sorted_set_insert split: if_splits)
      have par: "sorted_wrt (<) (parents (node_at h' b))"
      proof (cases "b = a")
        case True
        then show ?thesis using inv(6) by simp
      next
        case False
        from inv(4) [OF False] ord0 [OF b] show ?thesis by simp
      qed
      from ch par show ?thesis by simp
    qed
    then show ?thesis unfolding success(1) ordered_def by simp
  qed
qed

lemma wf_apply_op:
  "well_formed s \<Longrightarrow> allocator_ok op s \<Longrightarrow> well_formed (snd (apply_op op s))"
  by (cases op) (simp_all add: wf_create wf_connect wf_remove)

lemma ordered_apply_op:
  "well_formed s \<Longrightarrow> ordered (heap s) \<Longrightarrow> allocator_ok op s \<Longrightarrow> ordered (heap (snd (apply_op op s)))"
  by (cases op) (simp_all add: ordered_create ordered_connect ordered_remove)

lemma wf_run:
  "well_formed s \<Longrightarrow> ordered (heap s) \<Longrightarrow> admissible allowed ops s
     \<Longrightarrow> well_formed (run ops s) \<and> ordered (heap (run ops s))"
proof (induction ops arbitrary: s)
  case Nil
  then show ?case by simp
next
  case (Cons op ops)
  from Cons.prems have ok: "allocator_ok op s"
    and rest: "admissible allowed ops (snd (apply_op op s))" by simp_all
  have "well_formed (snd (apply_op op s))" using Cons.prems(1) ok by (rule wf_apply_op)
  moreover have "ordered (heap (snd (apply_op op s)))"
    using Cons.prems(1,2) ok by (rule ordered_apply_op)
  ultimately show ?case using Cons.IH rest by simp
qed

lemma admissible_mono:
  "admissible P ops s \<Longrightarrow> \<forall>s op. P s op \<longrightarrow> Q s op \<Longrightarrow> admissible Q ops s"
  by (induction ops arbitrary: s) auto

lemma filter_eq_distinct:
  "distinct xs \<Longrightarrow> filter (\<lambda>p. p = b \<and> Q p) xs = (if b \<in> set xs \<and> Q b then [b] else [])"
  by (induction xs) auto

lemma bfs_leaf:
  assumes "children (node_at h a) = []"
  shows "bfs h [a] [] [] rp = ([a], [node_id (node_at h a)])"
  using assms by (simp add: set_insert_def bfs.simps)

subsection \<open>Lemmas about the invariants\<close>

lemma stem_keptD:
  assumes "stem_kept s"
  shows "well_formed s" and "viruses s (get_stem_id s) = Some (stemNode s)"
    and "a \<in> fmdom' (heap s) \<Longrightarrow> stemNode s \<notin> set (children (node_at (heap s) a))"
    and "a \<in> fmdom' (heap s) \<Longrightarrow> node_id (node_at (heap s) a) = get_stem_id s \<Longrightarrow> a = stemNode s"
  using assms unfolding stem_kept_def by simp_all

lemma stem_keptI:
  assumes "well_formed s" and "viruses s (get_stem_id s) = Some (stemNode s)"
    and "\<And>a. a \<in> fmdom' (heap s) \<Longrightarrow> stemNode s \<notin> set (children (node_at (heap s) a))"
    and "\<And>a. a \<in> fmdom' (heap s) \<Longrightarrow> node_id (node_at (heap s) a) = get_stem_id s
            \<Longrightarrow> a = stemNode s"
  shows "stem_kept s"
  using assms unfolding stem_kept_def by simp

lemma stem_kept_VirusGenealogy: "stem_kept (VirusGenealogy a stem_id)"
  by (rule stem_keptI [OF wf_VirusGenealogy])
     (simp_all add: VirusGenealogy_def get_stem_id_def node_id_def split: if_splits)

lemma stem_kept_lookup:
  assumes "stem_kept s" and "viruses s vid = Some a" and "vid \<noteq> get_stem_id s"
  shows "a \<noteq> stemNode s"
proof
  assume "a = stemNode s"
  with assms(2) wf_viruses [OF stem_keptD(1) [OF assms(1)], of vid a]
  have "node_id (node_at (heap s) (stemNode s)) = vid" by simp
  with assms(3) show False unfolding get_stem_id_def by simp
qed

lemma stem_kept_connect:
  assumes inv: "stem_kept s" and nc: "c \<noteq> get_stem_id s"
  shows "stem_kept (snd (connect c p s))"
proof (cases "\<exists>x pa. viruses s c = Some x \<and> viruses s p = Some pa
                        \<and> x \<notin> set (children (node_at (heap s) pa))")
  case False
  then have "snd (connect c p s) = s" by (auto simp: connect_eq split: option.splits)
  with inv show ?thesis by simp
next
  case True
  then obtain x pa where x: "viruses s c = Some x" and pa: "viruses s p = Some pa"
    and new: "x \<notin> set (children (node_at (heap s) pa))" by blast
  note wf = stem_keptD(1) [OF inv]
  let ?h = "map_parents (set_insert pa) x (map_children (set_insert x) pa (heap s))"
  let ?s' = "s\<lparr>heap := ?h\<rparr>"
  have eq: "snd (connect c p s) = ?s'" using x pa new by (simp add: connect_eq)
  from wf x pa have dom: "x \<in> fmdom' (heap s)" "pa \<in> fmdom' (heap s)"
    by (simp_all add: wf_viruses)
  have d: "fmdom' ?h = fmdom' (heap s)" using dom by auto
  have xs: "x \<noteq> stemNode s" using inv x nc by (rule stem_kept_lookup)
  have ids: "node_id (node_at (heap ?s') b) = node_id (node_at (heap s) b)" for b
    unfolding node_id_def by simp
  have gs: "get_stem_id ?s' = get_stem_id s" unfolding get_stem_id_def ids by simp
  have wf': "well_formed ?s'" using wf_connect [OF wf, of c p] eq by simp
  show ?thesis unfolding eq
  proof (rule stem_keptI [OF wf'])
    show "viruses ?s' (get_stem_id ?s') = Some (stemNode ?s')"
      unfolding gs using stem_keptD(2) [OF inv] by simp
    fix a assume a: "a \<in> fmdom' (heap ?s')"
    then have a': "a \<in> fmdom' (heap s)" using dom by auto
    show "stemNode ?s' \<notin> set (children (node_at (heap ?s') a))"
      using stem_keptD(3) [OF inv a'] xs by auto
    show "a = stemNode ?s'" if "node_id (node_at (heap ?s') a) = get_stem_id ?s'"
      using that stem_keptD(4) [OF inv a'] unfolding gs ids by simp
  qed
qed

lemma stem_kept_create:
  assumes inv: "stem_kept s" and fresh: "a \<notin> fmdom' (heap s)"
  shows "stem_kept (snd (create a vid ps s))"
proof (cases "ps \<noteq> [] \<and> \<not> exists s vid")
  case False
  then have "snd (create a vid ps s) = s" unfolding create_def by auto
  with inv show ?thesis by simp
next
  case True
  then have ne: "ps \<noteq> []" and new: "\<not> exists s vid" by simp_all
  note wf = stem_keptD(1) [OF inv]
  have wf': "well_formed (snd (create a vid ps s))" using wf fresh by (rule wf_create)
  have stem_dom: "stemNode s \<in> fmdom' (heap s)" using wf by (rule wf_stem)
  with fresh have sa: "stemNode s \<noteq> a" by auto
  have vid: "vid \<noteq> get_stem_id s"
    using new stem_keptD(2) [OF inv] unfolding exists_def by auto
  from wf fresh ne new show ?thesis
  proof (cases rule: create_cases)
    case (failure i h')
    let ?s' = "s\<lparr>heap := h'\<rparr>"
    have eq: "snd (create a vid ps s) = ?s'" using failure(4) by simp
    have gs: "get_stem_id ?s' = get_stem_id s"
      unfolding get_stem_id_def using failure(6) [of "stemNode s"] sa by simp
    show ?thesis unfolding eq
    proof (rule stem_keptI)
      show "well_formed ?s'" using wf' eq by simp
      show "viruses ?s' (get_stem_id ?s') = Some (stemNode ?s')"
        unfolding gs using stem_keptD(2) [OF inv] by simp
      fix b assume b: "b \<in> fmdom' (heap ?s')"
      show "stemNode ?s' \<notin> set (children (node_at (heap ?s') b))"
      proof (cases "b = a")
        case True
        then show ?thesis using failure(8) by simp
      next
        case False
        with b failure(5) have "b \<in> fmdom' (heap s)" by simp
        from stem_keptD(3) [OF inv this] failure(6) [OF False] show ?thesis by simp
      qed
      show "b = stemNode ?s'" if id: "node_id (node_at (heap ?s') b) = get_stem_id ?s'"
      proof (cases "b = a")
        case True
        with id failure(7) vid show ?thesis unfolding gs node_id_def by simp
      next
        case False
        with b failure(5) have "b \<in> fmdom' (heap s)" by simp
        from stem_keptD(4) [OF inv this] failure(6) [OF False] id show ?thesis
          unfolding gs by simp
      qed
    qed
  next
    case (success inp h')
    let ?s' = "s\<lparr>heap := h', viruses := (viruses s)(vid \<mapsto> a)\<rparr>"
    note ci = connect_invD [OF success(2)]
    have eq: "snd (create a vid ps s) = ?s'" using success(1) by simp
    have d: "fmdom' h' = insert a (fmdom' (heap s))" using ci(1) by simp
    have ids: "node_id (node_at (heap ?s') b) = (if b = a then vid else node_id (node_at (heap s) b))"
      for b
      unfolding node_id_def using ci(2) [of b] by simp
    have gs: "get_stem_id ?s' = get_stem_id s"
      unfolding get_stem_id_def ids using sa by simp
    show ?thesis unfolding eq
    proof (rule stem_keptI)
      show "well_formed ?s'" using wf' eq by simp
      show "viruses ?s' (get_stem_id ?s') = Some (stemNode ?s')"
        unfolding gs using stem_keptD(2) [OF inv] vid by simp
      fix b assume b: "b \<in> fmdom' (heap ?s')"
      have "stemNode s \<notin> set (children (node_at (fmupd a (Node vid) (heap s)) b))"
      proof (cases "b = a")
        case True
        then show ?thesis by simp
      next
        case False
        with b d have "b \<in> fmdom' (heap s)" by simp
        from stem_keptD(3) [OF inv this] False show ?thesis by simp
      qed
      then show "stemNode ?s' \<notin> set (children (node_at (heap ?s') b))"
        using ci(3) [of b] sa by (auto split: if_splits)
      show "b = stemNode ?s'" if id: "node_id (node_at (heap ?s') b) = get_stem_id ?s'"
      proof (cases "b = a")
        case True
        with id vid show ?thesis unfolding gs ids by simp
      next
        case False
        with b d have "b \<in> fmdom' (heap s)" by simp
        from stem_keptD(4) [OF inv this] id False show ?thesis
          unfolding gs ids by simp
      qed
    qed
  qed
qed

lemma stem_kept_remove:
  assumes inv: "stem_kept s"
  shows "stem_kept (snd (remove vid s))"
proof (cases "vid \<noteq> get_stem_id s \<and> viruses s vid \<noteq> None")
  case False
  then have "snd (remove vid s) = s" by (auto simp: remove_eq)
  with inv show ?thesis by simp
next
  case True
  then obtain r where r: "viruses s vid = Some r" and ns: "vid \<noteq> get_stem_id s" by auto
  note wf = stem_keptD(1) [OF inv]
  obtain fr ri where bfs: "bfs (heap s) [r] [] [] (\<lambda>_. 0) = (fr, ri)"
    by (cases "bfs (heap s) [r] [] [] (\<lambda>_. 0)")
  let ?h = "removal_heap (heap s) r fr"
  let ?s' = "s\<lparr>heap := ?h, viruses := viruses s |` (- set ri)\<rparr>"
  have eq: "snd (remove vid s) = ?s'" using r ns bfs by (simp add: remove_eq)
  let ?A = "fmdom' (heap s) - {stemNode s}"
  have closed: "\<forall>a \<in> ?A. set (children (node_at (heap s) a)) \<subseteq> ?A"
    using wf_closed [OF wf] stem_keptD(3) [OF inv] by blast
  have rdom: "r \<in> fmdom' (heap s)" using wf r by (simp add: wf_viruses)
  have rA: "set [r] \<subseteq> ?A"
    using rdom stem_kept_lookup [OF inv r ns] by simp
  have frA: "set fr \<subseteq> ?A" using closed rA _ bfs by (rule bfs_subset) simp
  have keys: "set ri = (\<lambda>a. node_id (node_at (heap s) a)) ` set fr"
    using bfs_keys [OF _ bfs] by simp
  have stem_key: "get_stem_id s \<notin> set ri"
  proof
    assume "get_stem_id s \<in> set ri"
    then obtain b where b: "b \<in> set fr" "node_id (node_at (heap s) b) = get_stem_id s"
      unfolding keys by auto
    with frA have "b \<in> fmdom' (heap s)" "b \<noteq> stemNode s" by auto
    with stem_keptD(4) [OF inv this(1) b(2)] show False by simp
  qed
  have closed_all: "\<forall>a \<in> fmdom' (heap s). set (parents (node_at (heap s) a)) \<subseteq> fmdom' (heap s)
                                  \<and> set (children (node_at (heap s) a)) \<subseteq> fmdom' (heap s)"
    using wf unfolding well_formed_def by simp
  have d: "fmdom' ?h = fmdom' (heap s)"
    using closed_all rdom frA by (intro removal_heap_dom) auto
  have ids: "node_id (node_at (heap ?s') b) = node_id (node_at (heap s) b)" for b
    unfolding node_id_def by simp
  have gs: "get_stem_id ?s' = get_stem_id s" unfolding get_stem_id_def ids by simp
  show ?thesis unfolding eq
  proof (rule stem_keptI)
    show "well_formed ?s'" using wf_remove [OF wf, of vid] eq by simp
    show "viruses ?s' (get_stem_id ?s') = Some (stemNode ?s')"
      unfolding gs using stem_keptD(2) [OF inv] stem_key by simp
    fix b assume "b \<in> fmdom' (heap ?s')"
    then have b: "b \<in> fmdom' (heap s)" using d by simp
    show "stemNode ?s' \<notin> set (children (node_at (heap ?s') b))"
      using stem_keptD(3) [OF inv b] removal_heap_subsets(2) [of "heap s" r fr b] by auto
    show "b = stemNode ?s'" if "node_id (node_at (heap ?s') b) = get_stem_id ?s'"
      using that stem_keptD(4) [OF inv b] unfolding gs ids by simp
  qed
qed

lemma stem_kept_run:
  "stem_kept s \<Longrightarrow> admissible never_stem_child ops s \<Longrightarrow> stem_kept (run ops s)"
proof (induction ops arbitrary: s)
  case Nil
  then show ?case by simp
next
  case (Cons op ops)
  from Cons.prems(2) have ok: "allocator_ok op s" and allowed: "never_stem_child s op"
    and rest: "admissible never_stem_child ops (snd (apply_op op s))" by simp_all
  have "stem_kept (snd (apply_op op s))"
  proof (cases op)
    case (Create a vid ps)
    with ok Cons.prems(1) show ?thesis by (simp add: stem_kept_create)
  next
    case (Connect c p)
    with allowed Cons.prems(1) show ?thesis
      by (simp add: stem_kept_connect never_stem_child_def)
  next
    case (Remove vid)
    with Cons.prems(1) show ?thesis by (simp add: stem_kept_remove)
  qed
  with Cons.IH rest show ?case by simp
qed

lemma graph_okD:
  assumes "graph_ok h L"
  shows "a \<in> L \<Longrightarrow> set (parents (node_at h a)) \<subseteq> L"
    and "a \<in> L \<Longrightarrow> set (children (node_at h a)) \<subseteq> L"
    and "a \<in> L \<Longrightarrow> distinct (parents (node_at h a))"
    and "a \<in> L \<Longrightarrow> distinct (children (node_at h a))"
    and "a \<in> L \<Longrightarrow> b \<in> L \<Longrightarrow> b \<in> set (children (node_at h a)) \<longleftrightarrow> a \<in> set (parents (node_at h b))"
    and "inj_on (\<lambda>a. node_id (node_at h a)) L"
    and "acyclic (child_rel h L)"
  using assms unfolding graph_ok_def by simp_all

lemma counted_less:
  assumes ok: "graph_ok h L" and fr: "set fr \<subseteq> L" and cur: "cur \<in> L" "cur \<notin> set fr"
    and c: "c \<in> set (children (node_at h cur))"
  shows "counted h fr c < length (parents (node_at h c))"
proof -
  have cL: "c \<in> L" using graph_okD(2) [OF ok cur(1)] c by auto
  let ?S = "{p \<in> set fr. c \<in> set (children (node_at h p))}"
  have "?S \<subseteq> set (parents (node_at h c))"
    using graph_okD(5) [OF ok _ cL] fr by auto
  moreover have "cur \<in> set (parents (node_at h c))"
    using graph_okD(5) [OF ok cur(1) cL] c by simp
  moreover have "cur \<notin> ?S" using cur(2) by simp
  ultimately have "?S \<subset> set (parents (node_at h c))" by blast
  then have "card ?S < card (set (parents (node_at h c)))"
    by (intro psubset_card_mono) simp_all
  also have "\<dots> = length (parents (node_at h c))"
    using graph_okD(3) [OF ok cL] by (rule distinct_card)
  finally show ?thesis unfolding counted_def .
qed

lemma counted_insert:
  assumes "cur \<notin> set fr"
  shows "counted h (set_insert cur fr) c
           = counted h fr c + (if c \<in> set (children (node_at h cur)) then 1 else 0)"
proof (cases "c \<in> set (children (node_at h cur))")
  case True
  let ?S = "{p \<in> set fr. c \<in> set (children (node_at h p))}"
  have "{p \<in> set (set_insert cur fr). c \<in> set (children (node_at h p))} = insert cur ?S"
    using True by auto
  moreover have "card (insert cur ?S) = Suc (card ?S)"
    using assms by (intro card_insert_disjoint) simp_all
  ultimately show ?thesis unfolding counted_def using True by simp
next
  case False
  then have "{p \<in> set (set_insert cur fr). c \<in> set (children (node_at h p))}
               = {p \<in> set fr. c \<in> set (children (node_at h p))}"
    by auto
  then show ?thesis unfolding counted_def using False by simp
qed

lemma visit_invD:
  assumes "visit_inv h L r cur fr D rp q"
  shows "set q \<subseteq> L" and "distinct q" and "set q \<inter> insert cur (set fr) = {}"
    and "x \<in> set q \<Longrightarrow> (r, x) \<in> (child_rel h L)\<^sup>*"
    and "c \<in> L \<Longrightarrow> rp (node_id (node_at h c)) = counted h fr c + (if c \<in> D then 1 else 0)"
    and "c \<in> L \<Longrightarrow> c \<noteq> r \<Longrightarrow>
           (c \<in> set q \<union> insert cur (set fr)
              \<longleftrightarrow> parents (node_at h c) \<noteq> []
                  \<and> rp (node_id (node_at h c)) = length (parents (node_at h c)))"
  using assms unfolding visit_inv_def by simp_all

lemma visit_child_step:
  assumes ok: "graph_ok h L" and fr: "set fr \<subseteq> L" and cur: "cur \<in> L" "cur \<notin> set fr"
    and reach: "(r, cur) \<in> (child_rel h L)\<^sup>*"
    and inv: "visit_inv h L r cur fr D rp q"
    and c: "c \<in> set (children (node_at h cur))" "c \<notin> D"
    and step: "visit_child h c (rp, q) = (rp', q')"
  shows "visit_inv h L r cur fr (insert c D) rp' q'"
proof -
  let ?id = "\<lambda>a. node_id (node_at h a)"
  let ?E = "child_rel h L"
  note vi = visit_invD [OF inv]
  have cL: "c \<in> L" using graph_okD(2) [OF ok cur(1)] c(1) by auto
  have edge: "(cur, c) \<in> ?E" unfolding child_rel_def using cur(1) c(1) by simp
  have reach_c: "(r, c) \<in> ?E\<^sup>*" using reach edge by (rule rtrancl_into_rtrancl)
  have cr: "c \<noteq> r"
  proof
    assume "c = r"
    with reach edge have "(r, r) \<in> ?E\<^sup>+" by (simp add: rtrancl_into_trancl1)
    with graph_okD(7) [OF ok] show False unfolding acyclic_def by blast
  qed
  have before: "rp (?id c) = counted h fr c" using vi(5) [OF cL] c(2) by simp
  have less: "counted h fr c < length (parents (node_at h c))"
    using ok fr cur c(1) by (rule counted_less)
  have old: "c \<notin> set q \<union> insert cur (set fr)"
    using vi(6) [OF cL cr] before less by auto
  have nonempty: "parents (node_at h c) \<noteq> []" using less by auto
  let ?val = "rp (?id c) + 1"
  have rp': "rp' = rp(?id c := ?val)"
    using step unfolding visit_child_def by (auto simp: Let_def split: if_splits)
  have q': "q' = (if ?val = length (parents (node_at h c)) then q @ [c] else q)"
    using step unfolding visit_child_def by (auto simp: Let_def split: if_splits)
  have other: "rp' (?id c') = rp (?id c')" if "c' \<in> L" "c' \<noteq> c" for c'
  proof -
    from graph_okD(6) [OF ok] that cL have "?id c' \<noteq> ?id c" by (auto dest: inj_onD)
    then show ?thesis unfolding rp' by simp
  qed
  have self: "rp' (?id c) = ?val" unfolding rp' by simp
  have 1: "set q' \<subseteq> L" unfolding q' using vi(1) cL by auto
  have 2: "distinct q'" unfolding q' using vi(2) old by auto
  have 3: "set q' \<inter> insert cur (set fr) = {}" unfolding q' using vi(3) old by auto
  have 4: "\<forall>x \<in> set q'. (r, x) \<in> ?E\<^sup>*" unfolding q' using vi(4) reach_c by auto
  have 5: "\<forall>c' \<in> L. rp' (?id c') = counted h fr c' + (if c' \<in> insert c D then 1 else 0)"
  proof
    fix c' assume c': "c' \<in> L"
    show "rp' (?id c') = counted h fr c' + (if c' \<in> insert c D then 1 else 0)"
    proof (cases "c' = c")
      case True
      then show ?thesis using self before by simp
    next
      case False
      then show ?thesis using other [OF c' False] vi(5) [OF c'] by simp
    qed
  qed
  have 6: "\<forall>c' \<in> L. c' \<noteq> r \<longrightarrow>
           (c' \<in> set q' \<union> insert cur (set fr)
              \<longleftrightarrow> parents (node_at h c') \<noteq> []
                  \<and> rp' (?id c') = length (parents (node_at h c')))"
  proof (intro ballI impI)
    fix c' assume c': "c' \<in> L" "c' \<noteq> r"
    show "c' \<in> set q' \<union> insert cur (set fr)
              \<longleftrightarrow> parents (node_at h c') \<noteq> []
                  \<and> rp' (?id c') = length (parents (node_at h c'))"
    proof (cases "c' = c")
      case True
      show ?thesis unfolding True self q' using old nonempty by auto
    next
      case False
      have "c' \<in> set q' \<longleftrightarrow> c' \<in> set q" unfolding q' using False by auto
      then show ?thesis using other [OF c'(1) False] vi(6) [OF c'] by simp
    qed
  qed
  show ?thesis unfolding visit_inv_def using 1 2 3 4 5 6 by blast
qed

lemma fold_visit_child_inv:
  assumes ok: "graph_ok h L" and fr: "set fr \<subseteq> L" and cur: "cur \<in> L" "cur \<notin> set fr"
    and reach: "(r, cur) \<in> (child_rel h L)\<^sup>*"
  shows "visit_inv h L r cur fr D rp q \<Longrightarrow> set cs \<subseteq> set (children (node_at h cur))
           \<Longrightarrow> distinct cs \<Longrightarrow> set cs \<inter> D = {}
           \<Longrightarrow> fold (visit_child h) cs (rp, q) = (rp', q')
           \<Longrightarrow> visit_inv h L r cur fr (D \<union> set cs) rp' q'"
proof (induction cs arbitrary: D rp q)
  case Nil
  then show ?case by simp
next
  case (Cons c cs)
  obtain rp1 q1 where step: "visit_child h c (rp, q) = (rp1, q1)"
    by (cases "visit_child h c (rp, q)")
  have c: "c \<in> set (children (node_at h cur))" "c \<notin> D"
    using Cons.prems(2,4) by auto
  have inv1: "visit_inv h L r cur fr (insert c D) rp1 q1"
    using ok fr cur reach Cons.prems(1) c step by (rule visit_child_step)
  have "visit_inv h L r cur fr (insert c D \<union> set cs) rp' q'"
  proof (rule Cons.IH [OF inv1])
    show "set cs \<subseteq> set (children (node_at h cur))" using Cons.prems(2) by simp
    show "distinct cs" using Cons.prems(3) by simp
    show "set cs \<inter> insert c D = {}" using Cons.prems(3,4) by auto
    show "fold (visit_child h) cs (rp1, q1) = (rp', q')" using Cons.prems(5) step by simp
  qed
  then show ?case by simp
qed

lemma bfs_invD:
  assumes "bfs_inv h L r q fr rp"
  shows "set q \<subseteq> L" and "set fr \<subseteq> L" and "distinct q" and "set q \<inter> set fr = {}"
    and "r \<in> set q \<union> set fr"
    and "x \<in> set q \<union> set fr \<Longrightarrow> (r, x) \<in> (child_rel h L)\<^sup>*"
    and "c \<in> L \<Longrightarrow> rp (node_id (node_at h c)) = counted h fr c"
    and "c \<in> L \<Longrightarrow> c \<noteq> r \<Longrightarrow>
           (c \<in> set q \<union> set fr
              \<longleftrightarrow> parents (node_at h c) \<noteq> []
                  \<and> rp (node_id (node_at h c)) = length (parents (node_at h c)))"
  using assms unfolding bfs_inv_def by simp_all

lemma bfs_inv_step:
  assumes ok: "graph_ok h L"
    and inv: "bfs_inv h L r (cur # q) fr rp"
    and f: "fold (visit_child h) (children (node_at h cur)) (rp, q) = (rp', q')"
  shows "bfs_inv h L r q' (set_insert cur fr) rp'"
proof -
  let ?E = "child_rel h L"
  let ?cs = "children (node_at h cur)"
  note bi = bfs_invD [OF inv]
  have cur: "cur \<in> L" "cur \<notin> set fr" using bi(1,4) by auto
  have fr: "set fr \<subseteq> L" by (rule bi(2))
  have reach: "(r, cur) \<in> ?E\<^sup>*" using bi(6) [of cur] by simp
  have start: "visit_inv h L r cur fr {} rp q"
    unfolding visit_inv_def using bi(1,3,4) bi(6) bi(7) bi(8) by auto
  have "visit_inv h L r cur fr ({} \<union> set ?cs) rp' q'"
    using ok fr cur reach start _ _ _ f
    by (rule fold_visit_child_inv) (simp_all add: graph_okD(4) [OF ok cur(1)])
  then have fin: "visit_inv h L r cur fr (set ?cs) rp' q'" by simp
  note vi = visit_invD [OF fin]
  have 1: "set q' \<subseteq> L" by (rule vi(1))
  have 2: "set (set_insert cur fr) \<subseteq> L" using fr cur(1) by simp
  have 3: "distinct q'" by (rule vi(2))
  have 4: "set q' \<inter> set (set_insert cur fr) = {}" using vi(3) by simp
  have 5: "r \<in> set q' \<union> set (set_insert cur fr)"
  proof (cases "r = cur")
    case True
    then show ?thesis by simp
  next
    case False
    with bi(5) have "r \<in> set q \<union> set fr" by auto
    moreover have "set q \<subseteq> set q'" using f by (rule fold_visit_child_queue_mono)
    ultimately show ?thesis by auto
  qed
  have 6: "\<forall>x \<in> set q' \<union> set (set_insert cur fr). (r, x) \<in> ?E\<^sup>*"
    using vi(4) bi(6) reach by auto
  have 7: "\<forall>c \<in> L. rp' (node_id (node_at h c)) = counted h (set_insert cur fr) c"
    using vi(5) counted_insert [OF cur(2), of h] by simp
  have 8: "\<forall>c \<in> L. c \<noteq> r \<longrightarrow>
           (c \<in> set q' \<union> set (set_insert cur fr)
              \<longleftrightarrow> parents (node_at h c) \<noteq> []
                  \<and> rp' (node_id (node_at h c)) = length (parents (node_at h c)))"
    using vi(6) by simp
  show ?thesis unfolding bfs_inv_def using 1 2 3 4 5 6 7 8 by blast
qed

lemma bfs_inv_result:
  "graph_ok h L \<Longrightarrow> bfs_inv h L r q fr rp \<Longrightarrow> bfs h q fr ri rp = (fr', ri')
     \<Longrightarrow> \<exists>rp'. bfs_inv h L r [] fr' rp'"
proof (induction h q fr ri rp rule: bfs.induct)
  case (1 h fully_remove remove_iterators removed_parents)
  then show ?case by (auto simp: bfs.simps)
next
  case (2 h current to_process fully_remove remove_iterators removed_parents)
  obtain rp1 q1 where f: "fold (visit_child h) (children (node_at h current))
                            (removed_parents, to_process) = (rp1, q1)"
    by (cases "fold (visit_child h) (children (node_at h current)) (removed_parents, to_process)")
  have inv1: "bfs_inv h L r q1 (set_insert current fully_remove) rp1"
    using "2.prems"(1,2) f by (rule bfs_inv_step)
  have run: "bfs h q1 (set_insert current fully_remove)
               (remove_iterators @ [node_id (node_at h current)]) rp1 = (fr', ri')"
    using "2.prems"(3) f by (simp add: bfs.simps)
  show ?case using "2.IH" [OF f [symmetric] "2.prems"(1) inv1 run] .
qed

lemma bfs_inv_init:
  assumes "r \<in> L"
  shows "bfs_inv h L r [r] [] (\<lambda>_. 0)"
  unfolding bfs_inv_def counted_def using assms by auto

lemma live_iff: "a \<in> live s \<longleftrightarrow> (\<exists>vid. viruses s vid = Some a)"
  unfolding live_def ran_def by simp

lemma wf_live_dom: "well_formed s \<Longrightarrow> live s \<subseteq> fmdom' (heap s)"
proof
  fix a assume "well_formed s" and "a \<in> live s"
  then show "a \<in> fmdom' (heap s)" unfolding live_iff using wf_viruses [of s] by blast
qed

lemma wf_live_key:
  assumes "well_formed s" and "a \<in> live s"
  shows "viruses s (node_id (node_at (heap s) a)) = Some a"
proof -
  from assms(2) obtain vid where "viruses s vid = Some a" unfolding live_iff by blast
  with wf_viruses [OF assms(1) this] show ?thesis by simp
qed

lemma wf_inj: "well_formed s \<Longrightarrow> inj_on (\<lambda>a. node_id (node_at (heap s) a)) (live s)"
proof (rule inj_onI)
  fix a b
  assume wf: "well_formed s" and a: "a \<in> live s" and b: "b \<in> live s"
    and eq: "node_id (node_at (heap s) a) = node_id (node_at (heap s) b)"
  from wf_live_key [OF wf a] wf_live_key [OF wf b] eq show "a = b" by (metis option.inject)
qed

lemma ordered_distinct:
  "ordered h \<Longrightarrow> a \<in> fmdom' h \<Longrightarrow>
     distinct (parents (node_at h a)) \<and> distinct (children (node_at h a))"
  unfolding ordered_def by (simp add: strict_sorted_iff)

lemma linkedD:
  assumes "linked s"
  shows "a \<in> live s \<Longrightarrow> set (parents (node_at (heap s) a)) \<subseteq> live s"
    and "a \<in> live s \<Longrightarrow> set (children (node_at (heap s) a)) \<subseteq> live s"
    and "a \<in> live s \<Longrightarrow> b \<in> live s \<Longrightarrow>
           b \<in> set (children (node_at (heap s) a)) \<longleftrightarrow> a \<in> set (parents (node_at (heap s) b))"
    and "acyclic (child_rel (heap s) (live s))"
  using assms unfolding linked_def by simp_all

lemma graph_ok_linked:
  assumes wf: "well_formed s" and ord: "ordered (heap s)" and lk: "linked s"
  shows "graph_ok (heap s) (live s)"
proof -
  have 1: "\<forall>a \<in> live s. set (parents (node_at (heap s) a)) \<subseteq> live s
                    \<and> set (children (node_at (heap s) a)) \<subseteq> live s
                    \<and> distinct (parents (node_at (heap s) a))
                    \<and> distinct (children (node_at (heap s) a))"
  proof
    fix a assume a: "a \<in> live s"
    then have "a \<in> fmdom' (heap s)" using wf_live_dom [OF wf] by blast
    from ordered_distinct [OF ord this] linkedD(1,2) [OF lk a]
    show "set (parents (node_at (heap s) a)) \<subseteq> live s
                    \<and> set (children (node_at (heap s) a)) \<subseteq> live s
                    \<and> distinct (parents (node_at (heap s) a))
                    \<and> distinct (children (node_at (heap s) a))" by blast
  qed
  have 2: "\<forall>a \<in> live s. \<forall>b \<in> live s.
            b \<in> set (children (node_at (heap s) a)) \<longleftrightarrow> a \<in> set (parents (node_at (heap s) b))"
    using lk unfolding linked_def by blast
  show ?thesis
    unfolding graph_ok_def using 1 2 wf_inj [OF wf] linkedD(4) [OF lk] by blast
qed

lemma counted_parents:
  assumes ok: "graph_ok h L" and fr: "set fr \<subseteq> L" and c: "c \<in> L"
  shows "counted h fr c = card (set fr \<inter> set (parents (node_at h c)))"
proof -
  have "{p \<in> set fr. c \<in> set (children (node_at h p))} = set fr \<inter> set (parents (node_at h c))"
    using graph_okD(5) [OF ok _ c] fr by auto
  then show ?thesis unfolding counted_def by simp
qed

lemma bfs_post:
  assumes ok: "graph_ok h L" and r: "r \<in> L" and bfs: "bfs h [r] [] [] (\<lambda>_. 0) = (fr, ri)"
  shows "r \<in> set fr" and "set fr \<subseteq> L"
    and "c \<in> L \<Longrightarrow> c \<noteq> r \<Longrightarrow>
           (c \<in> set fr \<longleftrightarrow> parents (node_at h c) \<noteq> [] \<and> set (parents (node_at h c)) \<subseteq> set fr)"
    and "set ri = (\<lambda>a. node_id (node_at h a)) ` set fr"
proof -
  from bfs_inv_result [OF ok bfs_inv_init [OF r] bfs]
  obtain rp where inv: "bfs_inv h L r [] fr rp" by blast
  note bi = bfs_invD [OF inv]
  show "r \<in> set fr" using bi(5) by simp
  show fr: "set fr \<subseteq> L" by (rule bi(2))
  show "set ri = (\<lambda>a. node_id (node_at h a)) ` set fr"
    using bfs_keys [OF _ bfs] by simp
  show "c \<in> set fr \<longleftrightarrow> parents (node_at h c) \<noteq> [] \<and> set (parents (node_at h c)) \<subseteq> set fr"
    if c: "c \<in> L" "c \<noteq> r"
  proof -
    let ?P = "set (parents (node_at h c))"
    have len: "length (parents (node_at h c)) = card ?P"
      using graph_okD(3) [OF ok c(1)] by (simp add: distinct_card)
    have cnt: "rp (node_id (node_at h c)) = card (set fr \<inter> ?P)"
      using bi(7) [OF c(1)] counted_parents [OF ok fr c(1)] by simp
    have "card (set fr \<inter> ?P) = card ?P \<longleftrightarrow> ?P \<subseteq> set fr"
    proof
      assume "card (set fr \<inter> ?P) = card ?P"
      then have "set fr \<inter> ?P = ?P" by (intro card_subset_eq) simp_all
      then show "?P \<subseteq> set fr" by blast
    next
      assume "?P \<subseteq> set fr"
      then have "set fr \<inter> ?P = ?P" by blast
      then show "card (set fr \<inter> ?P) = card ?P" by simp
    qed
    then show ?thesis using bi(8) [OF c] cnt len by simp
  qed
qed

lemma genealogy_invD:
  assumes "genealogy_inv s"
  shows "stem_kept s" and "well_formed s" and "ordered (heap s)" and "linked s" and "one_root s"
  using assms unfolding genealogy_inv_def stem_kept_def by simp_all

lemma one_rootD:
  assumes "one_root s"
  shows "parents (node_at (heap s) (stemNode s)) = []"
    and "a \<in> live s \<Longrightarrow> a \<noteq> stemNode s \<Longrightarrow> parents (node_at (heap s) a) \<noteq> []"
  using assms unfolding one_root_def by simp_all

lemma child_rel_mono:
  assumes "L' \<subseteq> L" and "\<And>a. a \<in> L' \<Longrightarrow> set (children (node_at h' a)) \<subseteq> set (children (node_at h a))"
  shows "child_rel h' L' \<subseteq> child_rel h L"
  unfolding child_rel_def using assms by auto

lemma genealogy_inv_remove:
  assumes inv: "genealogy_inv s"
  shows "genealogy_inv (snd (remove vid s))"
proof (cases "vid \<noteq> get_stem_id s \<and> viruses s vid \<noteq> None")
  case False
  then have "snd (remove vid s) = s" by (auto simp: remove_eq)
  with inv show ?thesis by simp
next
  case True
  then obtain r where r: "viruses s vid = Some r" and ns: "vid \<noteq> get_stem_id s" by auto
  note gi = genealogy_invD [OF inv]
  let ?h = "heap s"
  let ?L = "live s"
  let ?id = "\<lambda>a. node_id (node_at (heap s) a)"
  obtain fr ri where bfs: "bfs ?h [r] [] [] (\<lambda>_. 0) = (fr, ri)"
    by (cases "bfs ?h [r] [] [] (\<lambda>_. 0)")
  let ?h2 = "removal_heap ?h r fr"
  let ?s' = "s\<lparr>heap := ?h2, viruses := viruses s |` (- set ri)\<rparr>"
  have eq: "snd (remove vid s) = ?s'" using r ns bfs by (simp add: remove_eq)
  have ok: "graph_ok ?h ?L" using gi(2,3,4) by (rule graph_ok_linked)
  have rL: "r \<in> ?L" unfolding live_iff using r by blast
  note post = bfs_post [OF ok rL bfs]
  have sk': "stem_kept ?s'" using stem_kept_remove [OF gi(1), of vid] eq by simp
  have ord': "ordered (heap ?s')" using ordered_remove [OF gi(2,3), of vid] eq by simp
  have live': "live ?s' = ?L - set fr"
  proof (intro equalityI subsetI)
    fix a assume "a \<in> live ?s'"
    then obtain k where k: "k \<notin> set ri" "viruses s k = Some a"
      unfolding live_iff by (auto simp: restrict_map_def split: if_splits)
    then have aL: "a \<in> ?L" unfolding live_iff by blast
    from wf_viruses [OF gi(2) k(2)] have "?id a = k" by simp
    with k(1) post(4) have "a \<notin> set fr" by auto
    with aL show "a \<in> ?L - set fr" by simp
  next
    fix a assume a: "a \<in> ?L - set fr"
    then have aL: "a \<in> ?L" and nfr: "a \<notin> set fr" by simp_all
    have key: "viruses s (?id a) = Some a" using gi(2) aL by (rule wf_live_key)
    have "?id a \<notin> set ri"
    proof
      assume "?id a \<in> set ri"
      then obtain b where b: "b \<in> set fr" "?id b = ?id a" unfolding post(4) by auto
      with post(2) have "b \<in> ?L" by auto
      with graph_okD(6) [OF ok] aL b(2) have "b = a" by (auto dest: inj_onD)
      with b(1) nfr show False by simp
    qed
    with key show "a \<in> live ?s'" unfolding live_iff by (auto simp: restrict_map_def)
  qed
  have par': "set (parents (node_at ?h2 b)) = set (parents (node_at ?h b)) - set fr"
    if b: "b \<in> ?L" "b \<notin> set fr" for b
  proof -
    let ?er = "erased (ParentsOf b) (map drop_rollback (child_guards ?h fr))"
    have "set (parents (node_at ?h2 b)) = set (parents (node_at ?h b)) - set ?er"
      unfolding removal_heap_parents [OF b(2)]
      using graph_okD(3) [OF ok b(1)] by (rule fold_set_erase_set)
    moreover have "set (parents (node_at ?h b)) - set ?er = set (parents (node_at ?h b)) - set fr"
      unfolding erased_parents_child_guards
      using graph_okD(5) [OF ok _ b(1)] post(2) b(2) by auto
    ultimately show ?thesis by simp
  qed
  have ch': "set (children (node_at ?h2 b)) = set (children (node_at ?h b)) - set fr"
    if b: "b \<in> ?L" "b \<notin> set fr" for b
  proof -
    let ?er = "map (\<lambda>_. r) (filter (\<lambda>p. p = b \<and> r \<in> set (children (node_at ?h p)))
                                   (parents (node_at ?h r)))"
    have er: "set ?er = (if r \<in> set (children (node_at ?h b)) then {r} else {})"
      using graph_okD(5) [OF ok b(1) rL] by auto
    have "set (children (node_at ?h2 b)) = set (children (node_at ?h b)) - set ?er"
      unfolding removal_heap_children [OF b(2)]
      using graph_okD(4) [OF ok b(1)] by (rule fold_set_erase_set)
    moreover have "set (children (node_at ?h b)) - set ?er = set (children (node_at ?h b)) - set fr"
    proof (intro equalityI subsetI)
      fix c assume c: "c \<in> set (children (node_at ?h b)) - set ?er"
      then have cb: "c \<in> set (children (node_at ?h b))" by simp
      then have cL: "c \<in> ?L" using graph_okD(2) [OF ok b(1)] by auto
      have "c \<notin> set fr"
      proof
        assume cfr: "c \<in> set fr"
        show False
        proof (cases "c = r")
          case True
          with c er show False by (simp split: if_splits)
        next
          case False
          from post(3) [OF cL False] cfr have "set (parents (node_at ?h c)) \<subseteq> set fr" by simp
          moreover have "b \<in> set (parents (node_at ?h c))"
            using graph_okD(5) [OF ok b(1) cL] cb by simp
          ultimately show False using b(2) by auto
        qed
      qed
      with cb show "c \<in> set (children (node_at ?h b)) - set fr" by simp
    next
      fix c assume c: "c \<in> set (children (node_at ?h b)) - set fr"
      with post(1) have "c \<noteq> r" by auto
      with c er show "c \<in> set (children (node_at ?h b)) - set ?er" by (simp split: if_splits)
    qed
    ultimately show ?thesis by simp
  qed
  have linked': "linked ?s'"
    unfolding linked_def
  proof (intro conjI ballI)
    fix a assume "a \<in> live ?s'"
    then have a: "a \<in> ?L" "a \<notin> set fr" unfolding live' by simp_all
    show "set (parents (node_at (heap ?s') a)) \<subseteq> live ?s'"
      unfolding live' using par' [OF a] graph_okD(1) [OF ok a(1)] by auto
    show "set (children (node_at (heap ?s') a)) \<subseteq> live ?s'"
      unfolding live' using ch' [OF a] graph_okD(2) [OF ok a(1)] by auto
  next
    fix a b assume "a \<in> live ?s'" "b \<in> live ?s'"
    then have a: "a \<in> ?L" "a \<notin> set fr" and b: "b \<in> ?L" "b \<notin> set fr"
      unfolding live' by simp_all
    show "b \<in> set (children (node_at (heap ?s') a)) \<longleftrightarrow> a \<in> set (parents (node_at (heap ?s') b))"
      using ch' [OF a] par' [OF b] graph_okD(5) [OF ok a(1) b(1)] a(2) b(2) by simp
  next
    have "child_rel (heap ?s') (live ?s') \<subseteq> child_rel ?h ?L"
    proof (rule child_rel_mono)
      show "live ?s' \<subseteq> ?L" unfolding live' by blast
      fix a assume "a \<in> live ?s'"
      show "set (children (node_at (heap ?s') a)) \<subseteq> set (children (node_at ?h a))"
        using removal_heap_subsets(2) [of ?h r fr a] by simp
    qed
    then show "acyclic (child_rel (heap ?s') (live ?s'))"
      using graph_okD(7) [OF ok] by (rule acyclic_subset [rotated])
  qed
  have root': "one_root ?s'"
    unfolding one_root_def
  proof (intro conjI ballI impI)
    have "set (parents (node_at ?h2 (stemNode s))) \<subseteq> set (parents (node_at ?h (stemNode s)))"
      by (rule removal_heap_subsets)
    then show "parents (node_at (heap ?s') (stemNode ?s')) = []"
      using one_rootD(1) [OF gi(5)] by simp
  next
    fix a assume "a \<in> live ?s'" and ns: "a \<noteq> stemNode ?s'"
    then have a: "a \<in> ?L" "a \<notin> set fr" unfolding live' by simp_all
    with post(1) have ar: "a \<noteq> r" by auto
    have "parents (node_at ?h a) \<noteq> []" using one_rootD(2) [OF gi(5) a(1)] ns by simp
    with post(3) [OF a(1) ar] a(2) have "\<not> set (parents (node_at ?h a)) \<subseteq> set fr" by simp
    then have "set (parents (node_at ?h2 a)) \<noteq> {}" unfolding par' [OF a] by blast
    then show "parents (node_at (heap ?s') a) \<noteq> []" by auto
  qed
  show ?thesis unfolding eq genealogy_inv_def using sk' ord' linked' root' by simp
qed

lemma bfs_distinct:
  "graph_ok h L \<Longrightarrow> bfs_inv h L r q fr rp \<Longrightarrow> distinct ri
     \<Longrightarrow> set ri = (\<lambda>a. node_id (node_at h a)) ` set fr
     \<Longrightarrow> bfs h q fr ri rp = (fr', ri') \<Longrightarrow> distinct ri'"
proof (induction h q fr ri rp rule: bfs.induct)
  case (1 h fully_remove remove_iterators removed_parents)
  then show ?case by (simp add: bfs.simps)
next
  case (2 h current to_process fully_remove remove_iterators removed_parents)
  let ?id = "\<lambda>a. node_id (node_at h a)"
  obtain rp1 q1 where f: "fold (visit_child h) (children (node_at h current))
                            (removed_parents, to_process) = (rp1, q1)"
    by (cases "fold (visit_child h) (children (node_at h current)) (removed_parents, to_process)")
  note bi = bfs_invD [OF "2.prems"(2)]
  have cur: "current \<in> L" "current \<notin> set fully_remove" using bi(1,4) by auto
  have new: "?id current \<notin> set remove_iterators"
  proof
    assume "?id current \<in> set remove_iterators"
    then obtain b where b: "b \<in> set fully_remove" "?id b = ?id current"
      unfolding "2.prems"(4) by auto
    with bi(2) have "b \<in> L" by auto
    with graph_okD(6) [OF "2.prems"(1)] cur(1) b(2) have "b = current" by (auto dest: inj_onD)
    with b(1) cur(2) show False by simp
  qed
  have inv1: "bfs_inv h L r q1 (set_insert current fully_remove) rp1"
    using "2.prems"(1,2) f by (rule bfs_inv_step)
  have d1: "distinct (remove_iterators @ [?id current])"
    using "2.prems"(3) new by simp
  have keys: "set (remove_iterators @ [?id current])
                = ?id ` set (set_insert current fully_remove)"
    using "2.prems"(4) by auto
  have run: "bfs h q1 (set_insert current fully_remove)
               (remove_iterators @ [?id current]) rp1 = (fr', ri')"
    using "2.prems"(5) f by (simp add: bfs.simps)
  show ?case using "2.IH" [OF f [symmetric] "2.prems"(1) inv1 d1 keys run] .
qed

lemma genealogy_inv_remove_defined:
  assumes inv: "genealogy_inv s"
  shows "remove_defined vid s"
proof (cases "vid \<noteq> get_stem_id s \<and> viruses s vid \<noteq> None")
  case False
  then show ?thesis unfolding remove_defined_def by auto
next
  case True
  then obtain r where r: "viruses s vid = Some r" and ns: "vid \<noteq> get_stem_id s" by auto
  note gi = genealogy_invD [OF inv]
  let ?h = "heap s"
  let ?L = "live s"
  let ?id = "\<lambda>a. node_id (node_at (heap s) a)"
  obtain fr ri where bfs: "bfs ?h [r] [] [] (\<lambda>_. 0) = (fr, ri)"
    by (cases "bfs ?h [r] [] [] (\<lambda>_. 0)")
  have ok: "graph_ok ?h ?L" using gi(2,3,4) by (rule graph_ok_linked)
  have rL: "r \<in> ?L" unfolding live_iff using r by blast
  note post = bfs_post [OF ok rL bfs]
  have 1: "distinct ri"
    using ok bfs_inv_init [OF rL] _ _ bfs by (rule bfs_distinct) simp_all
  have 2: "list_all (\<lambda>k. viruses s k \<noteq> None) ri"
    unfolding list_all_iff
  proof
    fix k assume "k \<in> set ri"
    then obtain b where b: "b \<in> set fr" "k = ?id b" unfolding post(4) by auto
    with post(2) have "b \<in> ?L" by auto
    from wf_live_key [OF gi(2) this] b(2) show "viruses s k \<noteq> None" by simp
  qed
  have 3: "list_all (\<lambda>g. to_be_removed g \<noteq> None) (child_guards ?h fr)"
    unfolding list_all_iff
  proof
    fix g assume "g \<in> set (child_guards ?h fr)"
    then obtain current child where g: "g = new_RemoveGuard ?h (ParentsOf child) current"
      and c: "current \<in> set fr" "child \<in> set (children (node_at ?h current))"
      unfolding child_guards_def by auto
    from c(1) post(2) have curL: "current \<in> ?L" by auto
    with c(2) graph_okD(2) [OF ok curL] have chL: "child \<in> ?L" by auto
    from graph_okD(5) [OF ok curL chL] c(2) have "current \<in> set (parents (node_at ?h child))"
      by simp
    then show "to_be_removed g \<noteq> None" unfolding g new_RemoveGuard_def by simp
  qed
  have 4: "list_all (\<lambda>g. to_be_removed g \<noteq> None) (parent_guards ?h r)"
    unfolding list_all_iff
  proof
    fix g assume "g \<in> set (parent_guards ?h r)"
    then obtain parent where g: "g = new_RemoveGuard ?h (ChildrenOf parent) r"
      and p: "parent \<in> set (parents (node_at ?h r))"
      unfolding parent_guards_def by auto
    from p graph_okD(1) [OF ok rL] have pL: "parent \<in> ?L" by auto
    from graph_okD(5) [OF ok pL rL] p have "r \<in> set (children (node_at ?h parent))" by simp
    then show "to_be_removed g \<noteq> None" unfolding g new_RemoveGuard_def by simp
  qed
  show ?thesis
    unfolding remove_defined_def using r ns bfs 1 2 3 4 by simp
qed

lemma genealogy_invI:
  "stem_kept s \<Longrightarrow> ordered (heap s) \<Longrightarrow> linked s \<Longrightarrow> one_root s \<Longrightarrow> genealogy_inv s"
  unfolding genealogy_inv_def by simp

lemma genealogy_inv_VirusGenealogy: "genealogy_inv (VirusGenealogy a stem_id)"
proof (rule genealogy_invI)
  show "stem_kept (VirusGenealogy a stem_id)" by (rule stem_kept_VirusGenealogy)
  show "ordered (heap (VirusGenealogy a stem_id))" by (rule ordered_VirusGenealogy)
  have "child_rel (heap (VirusGenealogy a stem_id)) (live (VirusGenealogy a stem_id)) = {}"
    unfolding child_rel_def VirusGenealogy_def live_def by auto
  then show "linked (VirusGenealogy a stem_id)"
    unfolding linked_def by (simp add: VirusGenealogy_def live_def acyclic_def)
  show "one_root (VirusGenealogy a stem_id)"
    unfolding one_root_def by (simp add: VirusGenealogy_def live_def)
qed

lemma genealogy_inv_connect:
  assumes inv: "genealogy_inv s" and nc: "c \<noteq> get_stem_id s"
    and dag: "\<forall>x pa. viruses s c = Some x \<longrightarrow> viruses s p = Some pa
                 \<longrightarrow> (x, pa) \<notin> (child_rel (heap s) (live s))\<^sup>*"
  shows "genealogy_inv (snd (connect c p s))"
proof (cases "\<exists>x pa. viruses s c = Some x \<and> viruses s p = Some pa
                        \<and> x \<notin> set (children (node_at (heap s) pa))")
  case False
  then have "snd (connect c p s) = s" by (auto simp: connect_eq split: option.splits)
  with inv show ?thesis by simp
next
  case True
  then obtain x pa where x: "viruses s c = Some x" and pa: "viruses s p = Some pa"
    and new: "x \<notin> set (children (node_at (heap s) pa))" by blast
  note gi = genealogy_invD [OF inv]
  let ?hs = "heap s"
  let ?L = "live s"
  let ?h' = "map_parents (set_insert pa) x (map_children (set_insert x) pa ?hs)"
  let ?s' = "s\<lparr>heap := ?h'\<rparr>"
  have eq: "snd (connect c p s) = ?s'" using x pa new by (simp add: connect_eq)
  have xL: "x \<in> ?L" and paL: "pa \<in> ?L" unfolding live_iff using x pa by blast+
  have far: "(x, pa) \<notin> (child_rel ?hs ?L)\<^sup>*" using dag x pa by blast
  then have xpa: "x \<noteq> pa" by auto
  have live': "live ?s' = ?L" unfolding live_def by simp
  have par': "set (parents (node_at ?h' b))
                = set (parents (node_at ?hs b)) \<union> (if b = x then {pa} else {})" for b
    using xpa by auto
  have ch': "set (children (node_at ?h' b))
                = set (children (node_at ?hs b)) \<union> (if b = pa then {x} else {})" for b
    using xpa by auto
  show ?thesis unfolding eq
  proof (rule genealogy_invI)
    show "stem_kept ?s'" using stem_kept_connect [OF gi(1) nc, of p] eq by simp
    show "ordered (heap ?s')" using ordered_connect [OF gi(2,3), of c p] eq by simp
    show "linked ?s'"
      unfolding linked_def live'
    proof (intro conjI ballI)
      fix a assume a: "a \<in> ?L"
      show "set (parents (node_at (heap ?s') a)) \<subseteq> ?L"
        using par' [of a] linkedD(1) [OF gi(4) a] paL by (auto split: if_splits)
      show "set (children (node_at (heap ?s') a)) \<subseteq> ?L"
        using ch' [of a] linkedD(2) [OF gi(4) a] xL by (auto split: if_splits)
    next
      fix a b assume a: "a \<in> ?L" and b: "b \<in> ?L"
      show "b \<in> set (children (node_at (heap ?s') a)) \<longleftrightarrow> a \<in> set (parents (node_at (heap ?s') b))"
        using ch' [of a] par' [of b] linkedD(3) [OF gi(4) a b] by (auto split: if_splits)
    next
      have "child_rel (heap ?s') ?L = insert (pa, x) (child_rel ?hs ?L)"
        unfolding child_rel_def using ch' paL by (auto split: if_splits)
      then show "acyclic (child_rel (heap ?s') ?L)"
        using linkedD(4) [OF gi(4)] far by (simp add: acyclic_insert)
    qed
    have xs: "x \<noteq> stemNode s" using gi(1) x nc by (rule stem_kept_lookup)
    show "one_root ?s'"
      unfolding one_root_def live'
    proof (intro conjI ballI impI)
      show "parents (node_at (heap ?s') (stemNode ?s')) = []"
        using par' [of "stemNode s"] xs one_rootD(1) [OF gi(5)] by simp
    next
      fix a assume a: "a \<in> ?L" "a \<noteq> stemNode ?s'"
      then have "set (parents (node_at ?hs a)) \<noteq> {}" using one_rootD(2) [OF gi(5), of a] by simp
      then have "set (parents (node_at ?h' a)) \<noteq> {}" unfolding par' by simp
      then show "parents (node_at (heap ?s') a) \<noteq> []" by auto
    qed
  qed
qed

lemma connect_loop_all_present:
  "connect_loop vs x ids inp h = (True, inp', h') \<Longrightarrow> \<forall>i \<in> set ids. vs i \<noteq> None"
proof (induction ids arbitrary: inp h)
  case Nil
  show ?case by simp
next
  case (Cons i ids)
  show ?case
  proof (cases "vs i")
    case None
    with Cons.prems show ?thesis by simp
  next
    case (Some p)
    show ?thesis
    proof (cases "x \<in> set (children (node_at h p))")
      case True
      with Some Cons.prems have "connect_loop vs x ids inp h = (True, inp', h')" by simp
      from Cons.IH [OF this] Some show ?thesis by simp
    next
      case False
      with Some Cons.prems
      have "connect_loop vs x ids (inp @ [(p, x)])
              (map_parents (set_insert p) x (map_children (set_insert x) p h)) = (True, inp', h')"
        by (simp add: Let_def)
      from Cons.IH [OF this] Some show ?thesis by simp
    qed
  qed
qed

lemma create_success_present:
  assumes "create a vid ps s = (None, s')" and "ps \<noteq> []" and "\<not> exists s vid"
  shows "\<forall>i \<in> set ps. ((viruses s)(vid \<mapsto> a)) i \<noteq> None"
proof -
  let ?s1 = "s\<lparr>heap := fmupd a (Node vid) (heap s), viruses := (viruses s)(vid \<mapsto> a)\<rparr>"
  obtain ok inp h1 where loop: "connect_loop (viruses ?s1) a ps [] (heap ?s1) = (ok, inp, h1)"
    by (cases "connect_loop (viruses ?s1) a ps [] (heap ?s1)")
  have "ok"
  proof (rule ccontr)
    assume "\<not> ok"
    then have "fst (connect_ids vid ps ?s1) = Some VirusNotFound"
      unfolding connect_ids_def using loop by simp
    then obtain s2 where "connect_ids vid ps ?s1 = (Some VirusNotFound, s2)"
      by (cases "connect_ids vid ps ?s1") simp
    then have "fst (create a vid ps s) \<noteq> None"
      unfolding create_def using assms(2,3) by (simp add: Let_def)
    with assms(1) show False by simp
  qed
  with loop have "connect_loop ((viruses s)(vid \<mapsto> a)) a ps [] (heap ?s1) = (True, inp, h1)"
    by simp
  then show ?thesis by (rule connect_loop_all_present)
qed

lemma acyclic_add_sink:
  assumes acyc: "acyclic r" and dom: "a \<notin> Domain r" and B: "a \<notin> B"
  shows "acyclic (r \<union> B \<times> {a})"
proof -
  let ?r' = "r \<union> B \<times> {a}"
  have into: "(x, y) \<in> r\<^sup>+ \<or> y = a" if "(x, y) \<in> ?r'\<^sup>+" for x y
    using that
  proof (induction rule: trancl_induct)
    case (base y)
    then show ?case by auto
  next
    case (step y z)
    show ?case
    proof (cases "z = a")
      case True
      then show ?thesis by simp
    next
      case False
      with step.hyps(2) have yz: "(y, z) \<in> r" by auto
      then have "y \<noteq> a" using dom by auto
      with step.IH have "(x, y) \<in> r\<^sup>+" by simp
      with yz show ?thesis by (auto intro: trancl_into_trancl)
    qed
  qed
  show ?thesis
    unfolding acyclic_def
  proof (intro allI notI)
    fix x assume loop: "(x, x) \<in> ?r'\<^sup>+"
    from into [OF loop] acyc have "x = a" unfolding acyclic_def by blast
    with loop have "(a, a) \<in> ?r'\<^sup>+" by simp
    then obtain z where "(a, z) \<in> ?r'" by (auto dest: tranclD)
    with dom B show False by auto
  qed
qed

lemma live_fresh:
  assumes "well_formed s" and "a \<notin> fmdom' (heap s)"
  shows "a \<notin> live s"
  using wf_live_dom [OF assms(1)] assms(2) by blast

lemma genealogy_inv_create:
  assumes inv: "genealogy_inv s" and fresh: "a \<notin> fmdom' (heap s)" and self: "vid \<notin> set ps"
  shows "genealogy_inv (snd (create a vid ps s))"
proof (cases "ps \<noteq> [] \<and> \<not> exists s vid")
  case False
  then have "snd (create a vid ps s) = s" unfolding create_def by auto
  with inv show ?thesis by simp
next
  case True
  then have ne: "ps \<noteq> []" and new: "\<not> exists s vid" by simp_all
  note gi = genealogy_invD [OF inv]
  note wf = gi(2)
  let ?hs = "heap s"
  let ?L = "live s"
  have aL: "a \<notin> ?L" using wf fresh by (rule live_fresh)
  have sk': "stem_kept (snd (create a vid ps s))" using gi(1) fresh by (rule stem_kept_create)
  have ord': "ordered (heap (snd (create a vid ps s)))" using wf fresh gi(3) by (rule ordered_create)
  have stem_a: "stemNode s \<noteq> a" using wf_stem [OF wf] fresh by auto
  from wf fresh ne new show ?thesis
  proof (cases rule: create_cases)
    case (failure i h')
    let ?s' = "s\<lparr>heap := h'\<rparr>"
    have eq: "snd (create a vid ps s) = ?s'" using failure(4) by simp
    have live': "live ?s' = ?L" unfolding live_def by simp
    have same: "node_at h' b = node_at ?hs b" if "b \<in> ?L" for b
      using failure(6) [of b] that aL by auto
    show ?thesis unfolding eq
    proof (rule genealogy_invI)
      show "stem_kept ?s'" using sk' eq by simp
      show "ordered (heap ?s')" using ord' eq by simp
      have "child_rel h' ?L = child_rel ?hs ?L"
        unfolding child_rel_def using same by auto
      then show "linked ?s'"
        unfolding linked_def live' using gi(4) same unfolding linked_def by simp
      show "one_root ?s'"
        unfolding one_root_def live'
        using gi(5) same failure(6) [of "stemNode s"] stem_a unfolding one_root_def by simp
    qed
  next
    case (success inp h')
    let ?vs = "(viruses s)(vid \<mapsto> a)"
    let ?h0 = "fmupd a (Node vid) ?hs"
    let ?s' = "s\<lparr>heap := h', viruses := ?vs\<rparr>"
    let ?P = "processed ?vs ps"
    note ci = connect_invD [OF success(2)]
    have eq: "snd (create a vid ps s) = ?s'" using success(1) by simp
    have none: "viruses s vid = None" using new unfolding exists_def by simp
    have live': "live ?s' = insert a ?L" unfolding live_def using none by simp
    have ins: "inserted ?vs a ?h0 ps = ?P" using wf fresh by (rule create_inserted_eq_processed)
    have P_live: "?P \<subseteq> ?L"
    proof
      fix p assume "p \<in> ?P"
      then obtain i where "i \<in> set ps" "?vs i = Some p" unfolding processed_def by blast
      with self have "viruses s i = Some p" by (auto split: if_splits)
      then show "p \<in> ?L" unfolding live_iff by blast
    qed
    have present: "\<forall>i \<in> set ps. ?vs i \<noteq> None"
      using success(1) ne new by (rule create_success_present)
    have P_ne: "?P \<noteq> {}"
    proof -
      from ne obtain i where "i \<in> set ps" by (cases ps) auto
      with present obtain p where "?vs i = Some p" by blast
      with \<open>i \<in> set ps\<close> show ?thesis unfolding processed_def by blast
    qed
    have aP: "a \<notin> ?P" using P_live aL by blast
    have par_old: "parents (node_at h' b) = parents (node_at ?hs b)" if "b \<noteq> a" for b
      using ci(4) [OF that] that by simp
    have par_new: "set (parents (node_at h' a)) = ?P" using ci(5) ins by simp
    have ch_old: "set (children (node_at h' b))
                    = set (children (node_at ?hs b)) \<union> (if b \<in> ?P then {a} else {})"
      if "b \<noteq> a" for b
      using ci(3) [of b] ins that by auto
    have ch_new: "children (node_at h' a) = []" using ci(3) [of a] ins aP by simp
    have no_a: "a \<notin> set (parents (node_at ?hs b)) \<and> a \<notin> set (children (node_at ?hs b))"
      if "b \<in> ?L" for b
      using linkedD(1,2) [OF gi(4) that] aL by blast
    show ?thesis unfolding eq
    proof (rule genealogy_invI)
      show "stem_kept ?s'" using sk' eq by simp
      show "ordered (heap ?s')" using ord' eq by simp
      show "linked ?s'"
        unfolding linked_def live'
      proof (intro conjI ballI)
        fix b assume b: "b \<in> insert a ?L"
        show "set (parents (node_at (heap ?s') b)) \<subseteq> insert a ?L"
        proof (cases "b = a")
          case True
          then show ?thesis using par_new P_live by auto
        next
          case False
          with b have "b \<in> ?L" by simp
          from linkedD(1) [OF gi(4) this] par_old [OF False] show ?thesis by auto
        qed
        show "set (children (node_at (heap ?s') b)) \<subseteq> insert a ?L"
        proof (cases "b = a")
          case True
          then show ?thesis using ch_new by simp
        next
          case False
          with b have "b \<in> ?L" by simp
          from linkedD(2) [OF gi(4) this] ch_old [OF False] show ?thesis by auto
        qed
      next
        fix b c assume b: "b \<in> insert a ?L" and c: "c \<in> insert a ?L"
        show "c \<in> set (children (node_at (heap ?s') b)) \<longleftrightarrow> b \<in> set (parents (node_at (heap ?s') c))"
        proof (cases "b = a")
          case True
          have "a \<notin> set (parents (node_at h' c))"
          proof (cases "c = a")
            case True
            then show ?thesis using par_new aP by simp
          next
            case False
            with c have "c \<in> ?L" by simp
            from no_a [OF this] par_old [OF False] show ?thesis by simp
          qed
          then show ?thesis using True ch_new by simp
        next
          case False
          with b have bL: "b \<in> ?L" by simp
          show ?thesis
          proof (cases "c = a")
            case True
            then show ?thesis using ch_old [OF False] par_new no_a [OF bL] by auto
          next
            case ca: False
            with c have cL: "c \<in> ?L" by simp
            from linkedD(3) [OF gi(4) bL cL] ch_old [OF False] par_old [OF ca] ca
            show ?thesis by auto
          qed
        qed
      next
        have "child_rel (heap ?s') (insert a ?L) = child_rel ?hs ?L \<union> ?P \<times> {a}"
        proof (intro equalityI subsetI)
          fix e assume "e \<in> child_rel (heap ?s') (insert a ?L)"
          then obtain b c where e: "e = (b, c)" "b \<in> insert a ?L" "c \<in> set (children (node_at h' b))"
            unfolding child_rel_def by auto
          from e(3) ch_new have ba: "b \<noteq> a" by auto
          with e(2) have "b \<in> ?L" by simp
          with e(3) ch_old [OF ba] show "e \<in> child_rel ?hs ?L \<union> ?P \<times> {a}"
            unfolding e(1) child_rel_def by (auto split: if_splits)
        next
          fix e assume "e \<in> child_rel ?hs ?L \<union> ?P \<times> {a}"
          then consider b c where "e = (b, c)" "b \<in> ?L" "c \<in> set (children (node_at ?hs b))"
            | b where "e = (b, a)" "b \<in> ?P"
            unfolding child_rel_def by auto
          then show "e \<in> child_rel (heap ?s') (insert a ?L)"
          proof cases
            case 1
            from 1(2) aL have "b \<noteq> a" by auto
            from ch_old [OF this] 1 show ?thesis unfolding child_rel_def by auto
          next
            case 2
            from 2(2) aP have ba: "b \<noteq> a" by auto
            from 2(2) P_live have "b \<in> ?L" by auto
            with ch_old [OF ba] 2 show ?thesis unfolding child_rel_def by auto
          qed
        qed
        moreover have "acyclic (child_rel ?hs ?L \<union> ?P \<times> {a})"
        proof (rule acyclic_add_sink)
          show "acyclic (child_rel ?hs ?L)" using gi(4) by (rule linkedD(4))
          show "a \<notin> Domain (child_rel ?hs ?L)" unfolding child_rel_def using aL by auto
          show "a \<notin> ?P" by (rule aP)
        qed
        ultimately show "acyclic (child_rel (heap ?s') (insert a ?L))" by simp
      qed
      show "one_root ?s'"
        unfolding one_root_def live'
      proof (intro conjI ballI impI)
        show "parents (node_at (heap ?s') (stemNode ?s')) = []"
          using par_old [OF stem_a] one_rootD(1) [OF gi(5)] by simp
      next
        fix b assume b: "b \<in> insert a ?L" "b \<noteq> stemNode ?s'"
        show "parents (node_at (heap ?s') b) \<noteq> []"
        proof (cases "b = a")
          case True
          then show ?thesis using par_new P_ne by auto
        next
          case False
          with b have "b \<in> ?L" "b \<noteq> stemNode s" by simp_all
          from one_rootD(2) [OF gi(5) this] par_old [OF False] show ?thesis by simp
        qed
      qed
    qed
  qed
qed

lemma genealogy_inv_run:
  "genealogy_inv s \<Longrightarrow> admissible keeps_dag ops s \<Longrightarrow> genealogy_inv (run ops s)"
proof (induction ops arbitrary: s)
  case Nil
  then show ?case by simp
next
  case (Cons op ops)
  from Cons.prems(2) have ok: "allocator_ok op s" and allowed: "keeps_dag s op"
    and rest: "admissible keeps_dag ops (snd (apply_op op s))" by simp_all
  have "genealogy_inv (snd (apply_op op s))"
  proof (cases op)
    case (Create a vid ps)
    with ok allowed Cons.prems(1) show ?thesis
      by (simp add: genealogy_inv_create keeps_dag_def)
  next
    case (Connect c p)
    with allowed have "c \<noteq> get_stem_id s"
      and "\<forall>x pa. viruses s c = Some x \<longrightarrow> viruses s p = Some pa
                 \<longrightarrow> (x, pa) \<notin> (child_rel (heap s) (live s))\<^sup>*"
      unfolding keeps_dag_def by simp_all
    with Cons.prems(1) Connect show ?thesis by (simp add: genealogy_inv_connect)
  next
    case (Remove vid)
    with Cons.prems(1) show ?thesis by (simp add: genealogy_inv_remove)
  qed
  with Cons.IH rest show ?case by simp
qed

lemma keeps_dag_defined:
  "genealogy_inv s \<Longrightarrow> admissible keeps_dag ops s \<Longrightarrow> admissible defined_op ops s"
proof (induction ops arbitrary: s)
  case Nil
  then show ?case by simp
next
  case (Cons op ops)
  from Cons.prems(2) have ok: "allocator_ok op s" and allowed: "keeps_dag s op"
    and rest: "admissible keeps_dag ops (snd (apply_op op s))" by simp_all
  have "genealogy_inv (run [op] s)"
    using Cons.prems(1) by (rule genealogy_inv_run) (simp add: ok allowed)
  then have inv1: "genealogy_inv (snd (apply_op op s))" by simp
  have "defined_op s op"
    unfolding defined_op_def
    using genealogy_inv_remove_defined [OF Cons.prems(1)] by (simp split: operation.splits)
  with ok Cons.IH [OF inv1 rest] show ?case by simp
qed

lemma leaf_reaches_itself:
  assumes "children (node_at h x) = []" and "(x, y) \<in> (child_rel h L)\<^sup>*"
  shows "y = x"
  using assms(2)
proof (cases rule: converse_rtranclE)
  case base
  then show ?thesis by simp
next
  case (step z)
  with assms(1) show ?thesis unfolding child_rel_def by simp
qed

lemma dag_ops_admissible: "admissible keeps_dag dag_ops (VirusGenealogy 10 0)"
proof -
  let ?s0 = "VirusGenealogy 10 (0::nat)"
  let ?s1 = "snd (create 11 1 [0] ?s0)"
  let ?s2 = "snd (create 12 2 [0] ?s1)"
  let ?s3 = "snd (connect 2 1 ?s2)"
  let ?s4 = "snd (create 13 3 [1, 2] ?s3)"
  have alloc: "10 \<noteq> (11::nat)" "11 \<notin> fmdom' (heap ?s0)" "12 \<notin> fmdom' (heap ?s1)"
    "13 \<notin> fmdom' (heap ?s3)"
    by code_simp+
  have stem: "2 \<noteq> get_stem_id ?s2" by code_simp
  have x: "viruses ?s2 2 = Some 12" and pa: "viruses ?s2 1 = Some 11"
    and leaf: "children (node_at (heap ?s2) 12) = []"
    by code_simp+
  have far: "(12, 11) \<notin> (child_rel (heap ?s2) (live ?s2))\<^sup>*"
    using leaf_reaches_itself [OF leaf, of 11 "live ?s2"] by auto
  have conn: "keeps_dag ?s2 (Connect 2 1)"
    unfolding keeps_dag_def using stem x pa far by simp
  have creates: "keeps_dag ?s0 (Create 11 1 [0])" "keeps_dag ?s1 (Create 12 2 [0])"
    "keeps_dag ?s3 (Create 13 3 [1, 2])" "keeps_dag ?s4 (Remove 1)"
    unfolding keeps_dag_def by simp_all
  show ?thesis
    unfolding dag_ops_def using alloc conn creates by simp
qed

subsection \<open>Runs with and without defined behaviour\<close>

text \<open>
  Every call of \<open>remove\<close> on a store that satisfies \<open>genealogy_inv\<close> has defined
  behaviour (\<open>genealogy_inv_remove_defined\<close>), and so has every run that \<open>keeps_dag\<close>
  admits (\<open>keeps_dag_defined\<close>). The run \<open>cascade_ops\<close>, with its cycle through the node of
  1, has defined behaviour too, and so have the other example runs. In \<open>self_parent_ops\<close> the traversal of \<open>remove(1)\<close> returns
  the key 1 twice. The \<open>remove\<close> of an entity that \<open>create\<close> has just made, in a
  well-formed store, has defined behaviour (\<open>create_then_remove_defined\<close>).
\<close>

lemma cascade_ops_defined: "admissible defined_op cascade_ops (VirusGenealogy 10 0)"
  by code_simp

lemma example_runs_defined:
  "admissible defined_op stem_child_ops (VirusGenealogy 10 0)
   \<and> admissible defined_op (cascade_ops @ [Create 13 3 [1]]) (VirusGenealogy 10 0)
   \<and> admissible defined_op dag_ops (VirusGenealogy 10 0)
   \<and> remove_defined 0 (snd (create 14 0 [1, 3] orphaned))"
  by code_simp

lemma self_parent_ops_undefined:
  "admissible never_stem_child self_parent_ops (VirusGenealogy 10 0)
   \<and> bfs (heap (snd (create 11 1 [1] (VirusGenealogy 10 (0::nat))))) [11] [] [] (\<lambda>_. 0)
       = ([11], [1, 1])
   \<and> \<not> remove_defined 1 (snd (create 11 1 [1] (VirusGenealogy 10 (0::nat))))
   \<and> \<not> admissible defined_op self_parent_ops (VirusGenealogy 10 0)"
  by code_simp

lemma create_then_remove_defined:
  assumes wf: "well_formed s" and fresh: "a \<notin> fmdom' (heap s)"
    and A: "exists s A" and B: "exists s B" and X: "\<not> exists s X"
    and stem: "X \<noteq> get_stem_id s"
  shows "remove_defined X (snd (create a X [A, B] s))"
proof -
  let ?hs = "heap s"
  let ?h0 = "fmupd a (Node X) ?hs"
  let ?vs = "(viruses s)(X \<mapsto> a)"
  from A B obtain pa pb where pa: "viruses s A = Some pa" and pb: "viruses s B = Some pb"
    unfolding exists_def by auto
  from X have none: "viruses s X = None" unfolding exists_def by simp
  from pa pb none have neq: "A \<noteq> X" "B \<noteq> X" by auto
  from wf pa pb have dom: "pa \<in> fmdom' ?hs" "pb \<in> fmdom' ?hs" by (simp_all add: wf_viruses)
  have ne_a: "pa \<noteq> a" "pb \<noteq> a" using fresh dom by blast+
  have ne: "[A, B] \<noteq> []" by simp
  from wf fresh ne X show ?thesis
  proof (cases rule: create_cases)
    case (failure i h')
    with pa pb show ?thesis by auto
  next
    case (success inp h1)
    let ?s1 = "s\<lparr>heap := h1, viruses := ?vs\<rparr>"
    note inv = connect_invD [OF success(2)]
    have proc: "processed ?vs [A, B] = {pa, pb}"
      unfolding processed_def using pa pb neq by auto
    have ins: "inserted ?vs a ?h0 [A, B] = {pa, pb}"
      using create_inserted_eq_processed [OF wf fresh] proc by simp
    have ch_a: "children (node_at h1 a) = []"
      using inv(3) [of a] ins ne_a by auto
    have id_a: "node_id (node_at h1 a) = X"
      using inv(2) [of a] by (simp add: node_id_def)
    have par_a: "set (parents (node_at h1 a)) = {pa, pb}"
      using inv(5) ins by simp
    have bfs: "bfs h1 [a] [] [] (\<lambda>_. 0) = ([a], [X])"
      using bfs_leaf [OF ch_a] id_a by simp
    have no_guard: "child_guards h1 [a] = []"
      unfolding child_guards_def using ch_a by simp
    have found: "list_all (\<lambda>g. to_be_removed g \<noteq> None) (parent_guards h1 a)"
      unfolding list_all_iff
    proof
      fix g assume "g \<in> set (parent_guards h1 a)"
      then obtain parent where g: "g = new_RemoveGuard h1 (ChildrenOf parent) a"
        and p: "parent \<in> set (parents (node_at h1 a))"
        unfolding parent_guards_def by auto
      from p par_a have "parent \<in> inserted ?vs a ?h0 [A, B]" unfolding ins by simp
      with inv(3) [of parent] have "a \<in> set (children (node_at h1 parent))" by simp
      then show "to_be_removed g \<noteq> None" unfolding g new_RemoveGuard_def by simp
    qed
    have "remove_defined X ?s1"
      unfolding remove_defined_def using bfs no_guard found by simp
    with success(1) show ?thesis by simp
  qed
qed

section \<open>Failing calls of \<open>create\<close>\<close>

text \<open>
  C8. For every store and every non-empty parent list, \<open>create(id, parents)\<close> with an \<open>id\<close>
  that is already present fails with \<open>VirusAlreadyCreated\<close>. The presence check comes
  before any mutation: the store after the call is the store before the call, whatever
  address the allocator would have handed out.
\<close>

theorem create_duplicate_unchanged:
  assumes "exists s vid" and "parent_ids \<noteq> []"
  shows "create a vid parent_ids s = (Some VirusAlreadyCreated, s)"
  using assms by (simp add: create_def)

theorem create_duplicate_unchanged_witness:
  "exists scenario_SAB 1 \<and> [0, 2] \<noteq> ([] :: nat list)
   \<and> create 13 1 [0, 2] scenario_SAB = (Some VirusAlreadyCreated, scenario_SAB)"
proof -
  have present: "exists scenario_SAB 1"
    by (simp add: scenario_defs model_defs)
  have nonempty: "[0, 2] \<noteq> ([] :: nat list)"
    by simp
  show ?thesis
    using present nonempty create_duplicate_unchanged [OF present nonempty, of 13] by simp
qed

text \<open>
  C9. For every store and every fresh identifier \<open>id\<close>, \<open>create(id, {})\<close> with an empty
  parent list returns without an exception and leaves the store as it was; in particular
  no entity named \<open>id\<close> exists afterwards.
\<close>

theorem create_empty_fresh_noop:
  assumes "\<not> exists s vid"
  shows "create a vid [] s = (None, s) \<and> \<not> exists (snd (create a vid [] s)) vid"
  using assms by (simp add: create_def)

theorem create_empty_fresh_noop_witness:
  "\<not> exists scenario_SAB 5
   \<and> create 13 5 [] scenario_SAB = (None, scenario_SAB)
   \<and> \<not> exists (snd (create 13 5 [] scenario_SAB)) 5"
proof -
  have fresh: "\<not> exists scenario_SAB 5"
    by (simp add: scenario_defs model_defs)
  show ?thesis
    using fresh create_empty_fresh_noop [OF fresh, of 13] by simp
qed

text \<open>
  C10. For every store and every identifier \<open>id\<close> that is already present, \<open>create(id, {})\<close>
  with an empty parent list returns without raising \<open>VirusAlreadyCreated\<close> and leaves the
  store as it was: the test of the empty list comes before the test of the identifier.
\<close>

theorem create_empty_present_noop:
  assumes "exists s vid"
  shows "create a vid [] s = (None, s)"
  by (simp add: create_def)

theorem create_empty_present_noop_witness:
  "exists scenario_SAB 1 \<and> create 13 1 [] scenario_SAB = (None, scenario_SAB)"
proof -
  have present: "exists scenario_SAB 1"
    by (simp add: scenario_defs model_defs)
  show ?thesis
    using present create_empty_present_noop [OF present, of 13] by simp
qed

section \<open>The rollback of \<open>connect\<close>\<close>

text \<open>
  C1. A call of \<open>connect(child_id, parent_ids)\<close> that fails with \<open>VirusNotFound\<close> should
  leave the store as it was. It does not: the handler erases the child from the \<open>children\<close>
  of the parents it has processed, and leaves these parents in the \<open>parents\<close> of the child.
  Evaluated on the call \<open>connect(3, {1, 7})\<close> that \<open>create(3, {1, 7})\<close> makes on the store
  holding 0, 1 and 2: the call fails, the node of 1 has no child again, and the node of 3
  keeps the node of 1 as a parent. The same holds of \<open>connect(2, {1, 7})\<close> on that store:
  afterwards \<open>get_parents(2)\<close> is 0 and 1, and before the call it was 0.
\<close>

theorem connect_ids_failure_keeps_parents:
  "fst (connect_ids 3 [1, 7] inside_create) = Some VirusNotFound
   \<and> snd (connect_ids 3 [1, 7] inside_create) \<noteq> inside_create
   \<and> children (node_at (heap (snd (connect_ids 3 [1, 7] inside_create))) 11) = []
   \<and> parents (node_at (heap inside_create) 13) = []
   \<and> parents (node_at (heap (snd (connect_ids 3 [1, 7] inside_create))) 13) = [11]
   \<and> fst (connect_ids 2 [1, 7] scenario_SAB) = Some VirusNotFound
   \<and> get_parents scenario_SAB 2 = Inr [0]
   \<and> get_parents (snd (connect_ids 2 [1, 7] scenario_SAB)) 2 = Inr [0, 1]"
proof -
  have before: "parents (node_at (heap inside_create) 13) = []"
    by (simp add: scenario_defs model_defs)
  have after: "parents (node_at (heap (snd (connect_ids 3 [1, 7] inside_create))) 13) = [11]"
    by (simp add: scenario_defs model_defs)
  have differ: "snd (connect_ids 3 [1, 7] inside_create) \<noteq> inside_create"
    using before after by auto
  have fails: "fst (connect_ids 3 [1, 7] inside_create) = Some VirusNotFound"
    by (simp add: scenario_defs model_defs)
  have rolled: "children (node_at (heap (snd (connect_ids 3 [1, 7] inside_create))) 11) = []"
    by (simp add: scenario_defs model_defs)
  have fails2: "fst (connect_ids 2 [1, 7] scenario_SAB) = Some VirusNotFound"
    by (simp add: scenario_defs model_defs)
  have before2: "get_parents scenario_SAB 2 = Inr [0]"
    by (simp add: scenario_defs model_defs)
  have after2: "get_parents (snd (connect_ids 2 [1, 7] scenario_SAB)) 2 = Inr [0, 1]"
    by (simp add: scenario_defs model_defs)
  show ?thesis
    using before after differ fails rolled fails2 before2 after2 by simp
qed

section \<open>The removal scenario\<close>

lemma scenario_built:
  fixes S A B C :: 'id
  assumes ids: "distinct [S, A, B, C]" and addrs: "distinct [s, a, b, c]"
  shows "scenario s a b c S A B C =
     \<lparr>heap = fmupd c \<lparr>virus = Virus C, parents = (if a < b then [a, b] else [b, a]), children = []\<rparr>
              (fmupd b \<lparr>virus = Virus B, parents = [s], children = [c]\<rparr>
              (fmupd a \<lparr>virus = Virus A, parents = [s], children = [c]\<rparr>
              (fmupd s \<lparr>virus = Virus S, parents = [],
                        children = (if a < b then [a, b] else [b, a])\<rparr> fmempty))),
       viruses = [S \<mapsto> s, A \<mapsto> a, B \<mapsto> b, C \<mapsto> c], stemNode = s\<rparr>"
proof -
  from ids have i: "S \<noteq> A" "S \<noteq> B" "S \<noteq> C" "A \<noteq> B" "A \<noteq> C" "B \<noteq> C"
    "A \<noteq> S" "B \<noteq> S" "C \<noteq> S" "B \<noteq> A" "C \<noteq> A" "C \<noteq> B" by auto
  from addrs have d: "s \<noteq> a" "s \<noteq> b" "s \<noteq> c" "a \<noteq> b" "a \<noteq> c" "b \<noteq> c"
    "a \<noteq> s" "b \<noteq> s" "c \<noteq> s" "b \<noteq> a" "c \<noteq> a" "c \<noteq> b" by auto
  have 1: "create a A [S] (VirusGenealogy s S) =
    (None, \<lparr>heap = fmupd a \<lparr>virus = Virus A, parents = [s], children = []\<rparr>
              (fmupd s \<lparr>virus = Virus S, parents = [], children = [a]\<rparr> fmempty),
       viruses = [S \<mapsto> s, A \<mapsto> a], stemNode = s\<rparr>)"
    using i d
    by (simp add: create_def VirusGenealogy_def exists_def connect_ids_def map_children_def
        map_parents_def node_at_def set_insert_def Node_def fmupd_reorder_neq)
  have 2: "create b B [S] (snd (create a A [S] (VirusGenealogy s S))) =
    (None, \<lparr>heap = fmupd b \<lparr>virus = Virus B, parents = [s], children = []\<rparr>
              (fmupd a \<lparr>virus = Virus A, parents = [s], children = []\<rparr>
              (fmupd s \<lparr>virus = Virus S, parents = [],
                        children = (if a < b then [a, b] else [b, a])\<rparr> fmempty)),
       viruses = [S \<mapsto> s, A \<mapsto> a, B \<mapsto> b], stemNode = s\<rparr>)"
    unfolding 1 using i d
    by (cases "a < b")
       (simp_all add: create_def exists_def connect_ids_def map_children_def
        map_parents_def node_at_def set_insert_def Node_def fmupd_reorder_neq)
  show ?thesis
    unfolding scenario_def 2 using i d
    by (cases "a < b")
       (simp_all add: create_def exists_def connect_ids_def map_children_def
        map_parents_def node_at_def set_insert_def Node_def fmupd_reorder_neq)
qed

lemma scenario_remove_A:
  fixes S A B C :: 'id
  assumes ids: "distinct [S, A, B, C]" and addrs: "distinct [s, a, b, c]"
  shows "remove A (scenario s a b c S A B C) = (None,
     \<lparr>heap = fmupd c \<lparr>virus = Virus C, parents = [b], children = []\<rparr>
              (fmupd b \<lparr>virus = Virus B, parents = [s], children = [c]\<rparr>
              (fmupd a \<lparr>virus = Virus A, parents = [], children = []\<rparr>
              (fmupd s \<lparr>virus = Virus S, parents = [], children = [b]\<rparr> fmempty))),
       viruses = [S \<mapsto> s, B \<mapsto> b, C \<mapsto> c], stemNode = s\<rparr>)"
proof -
  from ids have i: "S \<noteq> A" "S \<noteq> B" "S \<noteq> C" "A \<noteq> B" "A \<noteq> C" "B \<noteq> C"
    "A \<noteq> S" "B \<noteq> S" "C \<noteq> S" "B \<noteq> A" "C \<noteq> A" "C \<noteq> B" by auto
  from addrs have d: "s \<noteq> a" "s \<noteq> b" "s \<noteq> c" "a \<noteq> b" "a \<noteq> c" "b \<noteq> c"
    "a \<noteq> s" "b \<noteq> s" "c \<noteq> s" "b \<noteq> a" "c \<noteq> a" "c \<noteq> b" by auto
  have keys: "[S \<mapsto> s, A \<mapsto> a, B \<mapsto> b, C \<mapsto> c] |` (- {A}) = [S \<mapsto> s, B \<mapsto> b, C \<mapsto> c]"
    using i by (auto simp: restrict_map_def)
  show ?thesis
    unfolding scenario_built [OF ids addrs] using i d keys
    by (cases "a < b")
       (simp_all add: model_defs fmupd_reorder_neq fun_upd_twist)
qed


lemma scenario_remove_B:
  fixes S A B C :: 'id
  assumes ids: "distinct [S, A, B, C]" and addrs: "distinct [s, a, b, c]"
  shows "remove B (snd (remove A (scenario s a b c S A B C))) = (None,
     \<lparr>heap = fmupd c \<lparr>virus = Virus C, parents = [], children = []\<rparr>
              (fmupd b \<lparr>virus = Virus B, parents = [], children = []\<rparr>
              (fmupd a \<lparr>virus = Virus A, parents = [], children = []\<rparr>
              (fmupd s \<lparr>virus = Virus S, parents = [], children = []\<rparr> fmempty))),
       viruses = [S \<mapsto> s], stemNode = s\<rparr>)"
proof -
  from ids have i: "S \<noteq> A" "S \<noteq> B" "S \<noteq> C" "A \<noteq> B" "A \<noteq> C" "B \<noteq> C"
    "A \<noteq> S" "B \<noteq> S" "C \<noteq> S" "B \<noteq> A" "C \<noteq> A" "C \<noteq> B" by auto
  from addrs have d: "s \<noteq> a" "s \<noteq> b" "s \<noteq> c" "a \<noteq> b" "a \<noteq> c" "b \<noteq> c"
    "a \<noteq> s" "b \<noteq> s" "c \<noteq> s" "b \<noteq> a" "c \<noteq> a" "c \<noteq> b" by auto
  show ?thesis
    unfolding scenario_remove_A [OF ids addrs] using i d
    by (cases "b < c")
       (simp_all add: model_defs fmupd_reorder_neq fun_upd_twist)
qed

text \<open>
  Both calls of \<open>remove\<close> in the scenario erase every position once: their behaviour is
  defined.
\<close>

lemma scenario_remove_defined:
  fixes S A B C :: 'id
  assumes ids: "distinct [S, A, B, C]" and addrs: "distinct [s, a, b, c]"
  shows "remove_defined A (scenario s a b c S A B C)"
    and "remove_defined B (snd (remove A (scenario s a b c S A B C)))"
proof -
  from ids have i: "S \<noteq> A" "S \<noteq> B" "S \<noteq> C" "A \<noteq> B" "A \<noteq> C" "B \<noteq> C"
    "A \<noteq> S" "B \<noteq> S" "C \<noteq> S" "B \<noteq> A" "C \<noteq> A" "C \<noteq> B" by auto
  from addrs have d: "s \<noteq> a" "s \<noteq> b" "s \<noteq> c" "a \<noteq> b" "a \<noteq> c" "b \<noteq> c"
    "a \<noteq> s" "b \<noteq> s" "c \<noteq> s" "b \<noteq> a" "c \<noteq> a" "c \<noteq> b" by auto
  show "remove_defined A (scenario s a b c S A B C)"
    unfolding scenario_built [OF ids addrs] remove_defined_def using i d
    by (cases "a < b") (simp_all add: model_defs fmupd_reorder_neq fun_upd_twist)
  show "remove_defined B (snd (remove A (scenario s a b c S A B C)))"
    unfolding scenario_remove_A [OF ids addrs] remove_defined_def using i d
    by (cases "b < c") (simp_all add: model_defs fmupd_reorder_neq fun_upd_twist)
qed

text \<open>
  C6. In the store built by \<open>construct(S)\<close>, \<open>create(A, {S})\<close>, \<open>create(B, {S})\<close>,
  \<open>create(C, {A, B})\<close>, for any four distinct identifiers and any four distinct
  addresses of their nodes: \<open>remove(A)\<close> succeeds, removes \<open>A\<close> and the edge from \<open>S\<close> to
  \<open>A\<close>, and keeps \<open>C\<close>, whose parents are then \<open>B\<close> alone. The following \<open>remove(B)\<close>
  succeeds and removes \<open>C\<close> with \<open>B\<close>, because \<open>C\<close> has lost its last parent; the stem
  stays, without children.
\<close>

theorem scenario_remove_A_then_B:
  fixes S A B C :: 'id
  assumes ids: "distinct [S, A, B, C]" and addrs: "distinct [s, a, b, c]"
  shows "fst (remove A (scenario s a b c S A B C)) = None
   \<and> \<not> exists (snd (remove A (scenario s a b c S A B C))) A
   \<and> children (node_at (heap (snd (remove A (scenario s a b c S A B C)))) s) = [b]
   \<and> exists (snd (remove A (scenario s a b c S A B C))) C
   \<and> get_parents (snd (remove A (scenario s a b c S A B C))) C = Inr [B]
   \<and> fst (remove B (snd (remove A (scenario s a b c S A B C)))) = None
   \<and> \<not> exists (snd (remove B (snd (remove A (scenario s a b c S A B C))))) B
   \<and> \<not> exists (snd (remove B (snd (remove A (scenario s a b c S A B C))))) C
   \<and> exists (snd (remove B (snd (remove A (scenario s a b c S A B C))))) S
   \<and> children (node_at (heap (snd (remove B (snd (remove A (scenario s a b c S A B C)))))) s) = []"
proof -
  from ids have i: "S \<noteq> A" "S \<noteq> B" "S \<noteq> C" "A \<noteq> B" "A \<noteq> C" "B \<noteq> C"
    "A \<noteq> S" "B \<noteq> S" "C \<noteq> S" "B \<noteq> A" "C \<noteq> A" "C \<noteq> B" by auto
  from addrs have d: "s \<noteq> a" "s \<noteq> b" "s \<noteq> c" "a \<noteq> b" "a \<noteq> c" "b \<noteq> c"
    "a \<noteq> s" "b \<noteq> s" "c \<noteq> s" "b \<noteq> a" "c \<noteq> a" "c \<noteq> b" by auto
  show ?thesis
    unfolding scenario_remove_B [OF ids addrs] unfolding scenario_remove_A [OF ids addrs]
    using i d by (simp add: exists_def get_parents_def node_id_def)
qed

theorem scenario_remove_A_then_B_witness:
  "distinct [0, 1, 2, 3 :: nat] \<and> distinct [10, 11, 12, 13 :: addr]
   \<and> scenario 10 11 12 13 0 1 2 (3 :: nat) = scenario_SABC
   \<and> fst (remove 1 scenario_SABC) = None
   \<and> \<not> exists (snd (remove 1 scenario_SABC)) 1
   \<and> children (node_at (heap (snd (remove 1 scenario_SABC))) 10) = [12]
   \<and> exists (snd (remove 1 scenario_SABC)) 3
   \<and> get_parents (snd (remove 1 scenario_SABC)) 3 = Inr [2]
   \<and> fst (remove 2 (snd (remove 1 scenario_SABC))) = None
   \<and> \<not> exists (snd (remove 2 (snd (remove 1 scenario_SABC)))) 2
   \<and> \<not> exists (snd (remove 2 (snd (remove 1 scenario_SABC)))) 3
   \<and> exists (snd (remove 2 (snd (remove 1 scenario_SABC)))) 0
   \<and> children (node_at (heap (snd (remove 2 (snd (remove 1 scenario_SABC))))) 10) = []"
proof -
  have ids: "distinct [0, 1, 2, 3 :: nat]" by simp
  have addrs: "distinct [10, 11, 12, 13 :: addr]" by simp
  have same: "scenario 10 11 12 13 0 1 2 (3 :: nat) = scenario_SABC"
    unfolding scenario_def scenario_defs by simp
  show ?thesis
    using ids addrs same scenario_remove_A_then_B [OF ids addrs] by simp
qed

section \<open>What \<open>create\<close> builds\<close>

text \<open>
  C5. For every well-formed store, every address the allocator may return, every fresh
  identifier \<open>id\<close> and every non-empty list \<open>parents\<close> of present identifiers:
  \<open>create(id, parents)\<close> succeeds; afterwards \<open>get_parents(id)\<close> returns exactly the
  identifiers of \<open>parents\<close>, each once, and iterating over the children of each of them
  from \<open>get_children_begin\<close> to \<open>get_children_end\<close> meets the virus \<open>id\<close>.
\<close>

theorem create_links_parents:
  assumes wf: "well_formed s" and fresh: "a \<notin> fmdom' (heap s)" and new: "\<not> exists s vid"
    and ne: "parent_ids \<noteq> []" and present: "\<forall>p \<in> set parent_ids. exists s p"
  shows "\<exists>s' ids. create a vid parent_ids s = (None, s')
           \<and> get_parents s' vid = Inr ids \<and> set ids = set parent_ids \<and> distinct ids
           \<and> (\<forall>p \<in> set parent_ids. \<exists>first stop vs.
                  get_children_begin s' p = Inr first \<and> get_children_end s' p = Inr stop
                  \<and> iterate s' first stop = Some vs \<and> Virus vid \<in> set vs)"
proof -
  let ?h0 = "fmupd a (Node vid) (heap s)"
  let ?vs = "(viruses s)(vid \<mapsto> a)"
  from wf fresh ne new show ?thesis
  proof (cases rule: create_cases)
    case (failure i h')
    with present show ?thesis unfolding exists_def by auto
  next
    case (success inp h')
    let ?s' = "s\<lparr>heap := h', viruses := ?vs\<rparr>"
    let ?P = "processed ?vs parent_ids"
    note inv = connect_invD [OF success(2)]
    have ins: "inserted ?vs a ?h0 parent_ids = ?P"
      using wf fresh by (rule create_inserted_eq_processed)
    have lookup: "\<exists>pa. viruses s p = Some pa \<and> ?vs p = Some pa \<and> pa \<noteq> a
                    \<and> pa \<in> ?P \<and> node_id (node_at h' pa) = p"
      if "p \<in> set parent_ids" for p
    proof -
      from that present obtain pa where pa: "viruses s p = Some pa"
        unfolding exists_def by auto
      with new have "p \<noteq> vid" unfolding exists_def by auto
      with pa have vs: "?vs p = Some pa" by simp
      from wf pa have dom: "pa \<in> fmdom' (heap s)" and pid: "node_id (node_at (heap s) pa) = p"
        by (simp_all add: wf_viruses)
      from dom fresh have neq: "pa \<noteq> a" by auto
      have "virus (node_at h' pa) = virus (node_at (heap s) pa)"
        using inv(2) [of pa] neq by simp
      with pid have "node_id (node_at h' pa) = p" unfolding node_id_def by simp
      moreover have "pa \<in> ?P" unfolding processed_def using vs that by blast
      ultimately show ?thesis using pa vs neq by blast
    qed
    have preimage: "\<exists>p \<in> set parent_ids. viruses s p = Some pa \<and> node_id (node_at h' pa) = p"
      if "pa \<in> ?P" for pa
    proof -
      from that obtain p where p: "p \<in> set parent_ids" "?vs p = Some pa"
        unfolding processed_def by blast
      from lookup [OF p(1)] p(2) show ?thesis using p(1) by auto
    qed
    have parents_a: "set (parents (node_at h' a)) = ?P"
      using inv(5) ins by simp
    have sorted_a: "sorted_wrt (<) (parents (node_at h' a))"
      using inv(6) by simp
    let ?ids = "map (\<lambda>parent. node_id (node_at h' parent)) (parents (node_at h' a))"
    have gp: "get_parents ?s' vid = Inr ?ids"
      unfolding get_parents_def by simp
    have set_ids: "set ?ids = set parent_ids"
    proof
      show "set ?ids \<subseteq> set parent_ids"
        using preimage parents_a by auto
      show "set parent_ids \<subseteq> set ?ids"
      proof
        fix p assume "p \<in> set parent_ids"
        from lookup [OF this] obtain pa where "pa \<in> ?P" "node_id (node_at h' pa) = p"
          by blast
        then show "p \<in> set ?ids" using parents_a by force
      qed
    qed
    have inj: "inj_on (\<lambda>parent. node_id (node_at h' parent)) (set (parents (node_at h' a)))"
    proof (rule inj_onI)
      fix p q
      assume "p \<in> set (parents (node_at h' a))" "q \<in> set (parents (node_at h' a))"
        and eq: "node_id (node_at h' p) = node_id (node_at h' q)"
      then have "p \<in> ?P" "q \<in> ?P" using parents_a by simp_all
      from preimage [OF this(1)] preimage [OF this(2)] eq show "p = q" by auto
    qed
    have "distinct (parents (node_at h' a))"
      using sorted_a by (simp add: strict_sorted_iff)
    with inj have dist: "distinct ?ids" by (simp add: distinct_map)
    have kids: "\<exists>first stop vs.
                  get_children_begin ?s' p = Inr first \<and> get_children_end ?s' p = Inr stop
                  \<and> iterate ?s' first stop = Some vs \<and> Virus vid \<in> set vs"
      if "p \<in> set parent_ids" for p
    proof -
      from lookup [OF that] obtain pa where pa: "?vs p = Some pa" "pa \<in> ?P" by blast
      let ?cs = "children (node_at h' pa)"
      have "?cs = set_insert a (children (node_at ?h0 pa))"
        using inv(3) [of pa] ins pa(2) by simp
      then have mem: "a \<in> set ?cs" by simp
      have va: "virus (node_at h' a) = Virus vid" using inv(2) [of a] by simp
      have b: "get_children_begin ?s' p = Inr (Iterator pa 0)"
        unfolding get_children_begin_def using pa(1) by simp
      have e: "get_children_end ?s' p = Inr (Iterator pa (length ?cs))"
        unfolding get_children_end_def using pa(1) by simp
      have it: "iterate ?s' (Iterator pa 0) (Iterator pa (length ?cs))
                  = Some (map (\<lambda>c. virus (node_at h' c)) ?cs)"
        using iterate_children [of ?s' pa] by simp
      have "Virus vid \<in> set (map (\<lambda>c. virus (node_at h' c)) ?cs)"
        using mem va by force
      with b e it show ?thesis by blast
    qed
    from success(1) gp set_ids dist kids show ?thesis by blast
  qed
qed

theorem create_links_parents_witness:
  "well_formed scenario_SAB \<and> 13 \<notin> fmdom' (heap scenario_SAB) \<and> \<not> exists scenario_SAB 3
   \<and> [1, 2] \<noteq> ([] :: nat list) \<and> exists scenario_SAB 1 \<and> exists scenario_SAB 2
   \<and> (\<exists>s' ids. create 13 3 [1, 2] scenario_SAB = (None, s')
           \<and> get_parents s' 3 = Inr ids \<and> set ids = set [1, 2] \<and> distinct ids
           \<and> (\<forall>p \<in> set [1, 2]. \<exists>first stop vs.
                  get_children_begin s' p = Inr first \<and> get_children_end s' p = Inr stop
                  \<and> iterate s' first stop = Some vs \<and> Virus 3 \<in> set vs))"
proof -
  have fresh: "13 \<notin> fmdom' (heap scenario_SAB)"
    unfolding scenario_SAB_eq by simp
  have new: "\<not> exists scenario_SAB 3"
    unfolding scenario_SAB_eq exists_def by simp
  have ne: "[1, 2] \<noteq> ([] :: nat list)"
    by simp
  have p1: "exists scenario_SAB 1" and p2: "exists scenario_SAB 2"
    unfolding scenario_SAB_eq exists_def by simp_all
  then have present: "\<forall>p \<in> set [1, 2]. exists scenario_SAB p"
    by simp
  show ?thesis
    using wf_scenario_SAB fresh new ne p1 p2
      create_links_parents [OF wf_scenario_SAB fresh new ne present]
    by blast
qed

section \<open>The order of the children iterator\<close>

text \<open>
  C2, as the claim states it: iterating from \<open>get_children_begin(id)\<close> to
  \<open>get_children_end(id)\<close> yields the children in ascending order of their identifiers.
  This fails in the store built by \<open>VirusGenealogy(0)\<close>, \<open>create(2, {0})\<close>,
  \<open>create(1, {0})\<close> with the nodes allocated at ascending addresses: the walk over the
  children of 0 yields the virus 2 and then the virus 1. The run calls \<open>create\<close> only, so
  every call of it has defined behaviour.
\<close>

theorem children_iteration_not_by_identifier:
  "admissible any_op descending_ops (VirusGenealogy 10 0)
   \<and> admissible defined_op descending_ops (VirusGenealogy 10 0)
   \<and> get_children_begin descending 0 = Inr (Iterator 10 0)
   \<and> get_children_end descending 0 = Inr (Iterator 10 2)
   \<and> iterate descending (Iterator 10 0) (Iterator 10 2) = Some [Virus 2, Virus 1]
   \<and> \<not> sorted (map get_id [Virus 2, Virus (1::nat)])"
proof -
  have built: "admissible any_op descending_ops (VirusGenealogy 10 0)"
    by code_simp
  have defined: "admissible defined_op descending_ops (VirusGenealogy 10 0)"
    by code_simp
  have first: "get_children_begin descending 0 = Inr (Iterator 10 0)"
    by code_simp
  have stop: "get_children_end descending 0 = Inr (Iterator 10 2)"
    by code_simp
  have walk: "iterate descending (Iterator 10 0) (Iterator 10 2) = Some [Virus 2, Virus 1]"
    by code_simp
  have order: "\<not> sorted (map get_id [Virus 2, Virus (1::nat)])"
    by simp
  from built defined first stop walk order show ?thesis by blast
qed

text \<open>
  C2, amended. In every store that a sequence of \<open>create\<close>, \<open>connect\<close> and \<open>remove\<close>
  calls with defined behaviour builds from a fresh store, and for every present
  identifier, iterating from \<open>get_children_begin(id)\<close> to \<open>get_children_end(id)\<close> yields
  the viruses of the children of \<open>id\<close>, each child once, in strictly ascending order of
  the addresses of the children's nodes, which is the order of
  \<open>std::set<std::shared_ptr<Node>>\<close>. The behaviour of a sequence is defined when no
  \<open>remove\<close> of it erases a position twice or erases \<open>end()\<close> (\<open>remove_defined\<close>); this
  holds of every sequence that keeps the graph acyclic (\<open>keeps_dag_defined\<close>).
\<close>

theorem children_iteration_in_address_order:
  assumes "admissible defined_op ops (VirusGenealogy a0 stem_id)"
    and "exists (run ops (VirusGenealogy a0 stem_id)) vid"
  shows "\<exists>a first stop.
           viruses (run ops (VirusGenealogy a0 stem_id)) vid = Some a
           \<and> get_children_begin (run ops (VirusGenealogy a0 stem_id)) vid = Inr first
           \<and> get_children_end (run ops (VirusGenealogy a0 stem_id)) vid = Inr stop
           \<and> iterate (run ops (VirusGenealogy a0 stem_id)) first stop
               = Some (map (\<lambda>c. virus (node_at (heap (run ops (VirusGenealogy a0 stem_id))) c))
                        (children (node_at (heap (run ops (VirusGenealogy a0 stem_id))) a)))
           \<and> sorted_wrt (<) (children (node_at (heap (run ops (VirusGenealogy a0 stem_id))) a))"
proof -
  let ?s = "run ops (VirusGenealogy a0 stem_id)"
  from assms(2) obtain a where a: "viruses ?s vid = Some a"
    unfolding exists_def by auto
  have inv: "well_formed ?s \<and> ordered (heap ?s)"
    using wf_VirusGenealogy ordered_VirusGenealogy assms(1) by (rule wf_run)
  then have "a \<in> fmdom' (heap ?s)" using a by (simp add: wf_viruses)
  with inv have srt: "sorted_wrt (<) (children (node_at (heap ?s) a))"
    unfolding ordered_def by simp
  let ?cs = "children (node_at (heap ?s) a)"
  have b: "get_children_begin ?s vid = Inr (Iterator a 0)"
    unfolding get_children_begin_def using a by simp
  have e: "get_children_end ?s vid = Inr (Iterator a (length ?cs))"
    unfolding get_children_end_def using a by simp
  have "iterate ?s (Iterator a 0) (Iterator a (length ?cs))
          = Some (map (\<lambda>c. virus (node_at (heap ?s) c)) ?cs)"
    by (rule iterate_children)
  with a b e srt show ?thesis by blast
qed

theorem children_iteration_in_address_order_witness:
  "admissible defined_op mixed_ops (VirusGenealogy 10 0)
   \<and> exists (run mixed_ops (VirusGenealogy 10 0)) 0
   \<and> (\<exists>a first stop.
           viruses (run mixed_ops (VirusGenealogy 10 0)) 0 = Some a
           \<and> get_children_begin (run mixed_ops (VirusGenealogy 10 0)) 0 = Inr first
           \<and> get_children_end (run mixed_ops (VirusGenealogy 10 0)) 0 = Inr stop
           \<and> iterate (run mixed_ops (VirusGenealogy 10 0)) first stop
               = Some (map (\<lambda>c. virus (node_at (heap (run mixed_ops (VirusGenealogy 10 0))) c))
                        (children (node_at (heap (run mixed_ops (VirusGenealogy 10 0))) a)))
           \<and> sorted_wrt (<) (children (node_at (heap (run mixed_ops (VirusGenealogy 10 0))) a)))
   \<and> children (node_at (heap (run mixed_ops (VirusGenealogy 10 0))) 10) = [11, 13]
   \<and> iterate (run mixed_ops (VirusGenealogy 10 0)) (Iterator 10 0) (Iterator 10 2)
       = Some [Virus 3, Virus 1]"
proof -
  have adm: "admissible defined_op mixed_ops (VirusGenealogy 10 0)"
    by code_simp
  have ex: "exists (run mixed_ops (VirusGenealogy 10 0)) 0"
    by code_simp
  have kids: "children (node_at (heap (run mixed_ops (VirusGenealogy 10 0))) 10) = [11, 13]"
    by code_simp
  have walk: "iterate (run mixed_ops (VirusGenealogy 10 0)) (Iterator 10 0) (Iterator 10 2)
                = Some [Virus 3, Virus 1]"
    by code_simp
  show ?thesis
    using adm ex kids walk children_iteration_in_address_order [OF adm ex] by blast
qed

section \<open>\<open>create\<close> followed by \<open>remove\<close>\<close>

text \<open>
  C7, as the claim states it: in every store in which \<open>A\<close> and \<open>B\<close> are present and \<open>X\<close> is
  absent, \<open>create(X, {A, B})\<close> and then \<open>remove(X)\<close> restore the store. This fails where \<open>X\<close>
  is the identifier of the stem and the stem is no longer in \<open>viruses\<close>: \<open>remove\<close> compares
  \<open>X\<close> with \<open>get_stem_id()\<close> and throws \<open>TriedToRemoveStemVirus\<close>. In the store \<open>orphaned\<close>
  the run \<open>cascade_ops\<close> has removed the stem 0 together with its parent 2; 1 and 3 are
  present. \<open>create(0, {1, 3})\<close> succeeds, \<open>remove(0)\<close> throws, and the new entity 0 stays
  with both its edges.
\<close>

theorem create_then_remove_stem_identifier:
  "orphaned = run (cascade_ops @ [Create 13 3 [1]]) (VirusGenealogy 10 0)
   \<and> admissible any_op (cascade_ops @ [Create 13 3 [1]]) (VirusGenealogy 10 0)
   \<and> exists orphaned 1 \<and> exists orphaned 3 \<and> \<not> exists orphaned 0
   \<and> 14 \<notin> fmdom' (heap orphaned)
   \<and> fst (create 14 0 [1, 3] orphaned) = None
   \<and> remove 0 (snd (create 14 0 [1, 3] orphaned))
       = (Some TriedToRemoveStemVirus, snd (create 14 0 [1, 3] orphaned))
   \<and> exists (snd (create 14 0 [1, 3] orphaned)) 0
   \<and> get_parents (snd (create 14 0 [1, 3] orphaned)) 0 = Inr [1, 3]"
proof -
  have built: "orphaned = run (cascade_ops @ [Create 13 3 [1]]) (VirusGenealogy 10 0)"
    unfolding orphaned_def stemless_def cascade_ops_def by simp
  have adm: "admissible any_op (cascade_ops @ [Create 13 3 [1]]) (VirusGenealogy 10 0)"
    by code_simp
  have pre: "exists orphaned 1 \<and> exists orphaned 3 \<and> \<not> exists orphaned 0
             \<and> 14 \<notin> fmdom' (heap orphaned)"
    by code_simp
  have made: "fst (create 14 0 [1, 3] orphaned) = None"
    by code_simp
  have "get_stem_id (snd (create 14 0 [1, 3] orphaned)) = 0"
    by code_simp
  then have refused: "remove 0 (snd (create 14 0 [1, 3] orphaned))
       = (Some TriedToRemoveStemVirus, snd (create 14 0 [1, 3] orphaned))"
    unfolding remove_def by simp
  have kept: "exists (snd (create 14 0 [1, 3] orphaned)) 0"
    by code_simp
  have edges: "get_parents (snd (create 14 0 [1, 3] orphaned)) 0 = Inr [1, 3]"
    by code_simp
  from built adm pre made refused kept edges show ?thesis by blast
qed

text \<open>
  C7, amended. For every well-formed store in which \<open>A\<close> and \<open>B\<close> are present, \<open>X\<close> is
  absent and \<open>X\<close> is not \<open>get_stem_id()\<close>, and for every address the allocator may return:
  \<open>create(X, {A, B})\<close> succeeds, the following \<open>remove(X)\<close> succeeds, and the store is then
  the store before \<open>create\<close>, with the same map \<open>viruses\<close>, the same stem and the same
  \<open>parents\<close> and \<open>children\<close> of every node it had; the node allocated for \<open>X\<close> is left
  with empty sets and nothing refers to it.
\<close>

theorem create_then_remove_restores:
  assumes wf: "well_formed s" and fresh: "a \<notin> fmdom' (heap s)"
    and A: "exists s A" and B: "exists s B" and X: "\<not> exists s X"
    and stem: "X \<noteq> get_stem_id s"
  shows "fst (create a X [A, B] s) = None
         \<and> remove X (snd (create a X [A, B] s))
             = (None, s\<lparr>heap := fmupd a (Node X) (heap s)\<rparr>)"
proof -
  let ?hs = "heap s"
  let ?h0 = "fmupd a (Node X) ?hs"
  let ?vs = "(viruses s)(X \<mapsto> a)"
  from A B obtain pa pb where pa: "viruses s A = Some pa" and pb: "viruses s B = Some pb"
    unfolding exists_def by auto
  from X have none: "viruses s X = None" unfolding exists_def by simp
  from pa pb none have neq: "A \<noteq> X" "B \<noteq> X" by auto
  from wf pa pb have dom: "pa \<in> fmdom' ?hs" "pb \<in> fmdom' ?hs" by (simp_all add: wf_viruses)
  have ne_a: "pa \<noteq> a" "pb \<noteq> a" using fresh dom by blast+
  have ne: "[A, B] \<noteq> []" by simp
  from wf fresh ne X show ?thesis
  proof (cases rule: create_cases)
    case (failure i h')
    with pa pb show ?thesis by auto
  next
    case (success inp h1)
    let ?s1 = "s\<lparr>heap := h1, viruses := ?vs\<rparr>"
    note inv = connect_invD [OF success(2)]
    have proc: "processed ?vs [A, B] = {pa, pb}"
      unfolding processed_def using pa pb neq by auto
    have ins: "inserted ?vs a ?h0 [A, B] = {pa, pb}"
      using create_inserted_eq_processed [OF wf fresh] proc by simp
    have wf1: "well_formed ?s1" using wf_create [OF wf fresh, of X "[A, B]"] success(1) by simp
    have d1: "fmdom' h1 = insert a (fmdom' ?hs)" using inv(1) by simp
    have ch_a: "children (node_at h1 a) = []"
      using inv(3) [of a] ins ne_a by auto
    have id_a: "node_id (node_at h1 a) = X"
      using inv(2) [of a] by (simp add: node_id_def)
    have par_a: "set (parents (node_at h1 a)) = {pa, pb}"
      using inv(5) ins by simp
    have dist_a: "distinct (parents (node_at h1 a))"
      using inv(6) by (simp add: strict_sorted_iff)
    have stem_dom: "stemNode s \<in> fmdom' ?hs" using wf by (rule wf_stem)
    with fresh have "stemNode s \<noteq> a" by auto
    then have "get_stem_id ?s1 = get_stem_id s"
      unfolding get_stem_id_def node_id_def using inv(2) [of "stemNode s"] by simp
    with stem have ns: "X \<noteq> get_stem_id ?s1" by simp
    have bfs: "bfs h1 [a] [] [] (\<lambda>_. 0) = ([a], [X])"
      using bfs_leaf [OF ch_a] id_a by simp
    let ?h2 = "removal_heap h1 a [a]"
    have keys: "?vs |` (- set [X]) = viruses s"
      using none by (auto simp: restrict_map_def)
    have "remove X ?s1 = (None, ?s1\<lparr>heap := ?h2, viruses := ?vs |` (- set [X])\<rparr>)"
      using ns by (simp add: remove_eq bfs)
    then have rem: "remove X ?s1 = (None, s\<lparr>heap := ?h2\<rparr>)"
      unfolding keys by simp
    have closed1: "\<forall>b \<in> fmdom' h1. set (parents (node_at h1 b)) \<subseteq> fmdom' h1
                                  \<and> set (children (node_at h1 b)) \<subseteq> fmdom' h1"
      using wf1 unfolding well_formed_def by simp
    have d2: "fmdom' ?h2 = fmdom' ?h0"
      using removal_heap_dom [OF closed1, of a "[a]"] d1 by simp
    have "?h2 = ?h0"
    proof (rule heap_eqI [OF d2])
      fix b assume "b \<in> fmdom' ?h0"
      show "node_at ?h2 b = node_at ?h0 b"
      proof (cases "b = a")
        case True
        show ?thesis
        proof (rule node_eqI)
          show "virus (node_at ?h2 b) = virus (node_at ?h0 b)" using inv(2) [of b] by simp
          show "parents (node_at ?h2 b) = parents (node_at ?h0 b)"
            using True removal_heap_removed [of a "[a]" h1 a] by simp
          show "children (node_at ?h2 b) = children (node_at ?h0 b)"
            using True removal_heap_removed [of a "[a]" h1 a] by simp
        qed
      next
        case False
        then have nb: "b \<notin> set [a]" by simp
        from \<open>b \<in> fmdom' ?h0\<close> False have bd: "b \<in> fmdom' ?hs" by simp
        have no_guard: "child_guards h1 [a] = []"
          unfolding child_guards_def using ch_a by simp
        show ?thesis
        proof (rule node_eqI)
          show "virus (node_at ?h2 b) = virus (node_at ?h0 b)" using inv(2) [of b] by simp
          show "parents (node_at ?h2 b) = parents (node_at ?h0 b)"
            using removal_heap_parents [OF nb, of h1 a] no_guard inv(4) [OF False] by simp
          have fresh_b: "a \<notin> set (children (node_at ?hs b))"
            using wf_closed [OF wf bd] fresh by auto
          show "children (node_at ?h2 b) = children (node_at ?h0 b)"
          proof (cases "b \<in> {pa, pb}")
            case True
            then have ch1: "children (node_at h1 b) = set_insert a (children (node_at ?hs b))"
              using inv(3) [of b] ins False by simp
            then have mem: "a \<in> set (children (node_at h1 b))" by simp
            have "filter (\<lambda>p. p = b \<and> a \<in> set (children (node_at h1 p))) (parents (node_at h1 a))
                    = [b]"
              using filter_eq_distinct [OF dist_a, of b "\<lambda>p. a \<in> set (children (node_at h1 p))"]
                True par_a mem by simp
            then have "children (node_at ?h2 b) = set_erase a (children (node_at h1 b))"
              using removal_heap_children [OF nb, of h1 a] by simp
            also have "\<dots> = children (node_at ?hs b)"
              unfolding ch1 using fresh_b by (rule set_erase_set_insert)
            finally show ?thesis using False by simp
          next
            case no: False
            then have ch1: "children (node_at h1 b) = children (node_at ?hs b)"
              using inv(3) [of b] ins False by simp
            have "filter (\<lambda>p. p = b \<and> a \<in> set (children (node_at h1 p))) (parents (node_at h1 a))
                    = []"
              using filter_eq_distinct [OF dist_a, of b "\<lambda>p. a \<in> set (children (node_at h1 p))"]
                no par_a by simp
            then have "children (node_at ?h2 b) = children (node_at h1 b)"
              using removal_heap_children [OF nb, of h1 a] by simp
            with ch1 show ?thesis using False by simp
          qed
        qed
      qed
    qed
    with rem success(1) show ?thesis by simp
  qed
qed

theorem create_then_remove_restores_witness:
  "well_formed scenario_SAB \<and> 13 \<notin> fmdom' (heap scenario_SAB)
   \<and> exists scenario_SAB 1 \<and> exists scenario_SAB 2 \<and> \<not> exists scenario_SAB 3
   \<and> 3 \<noteq> get_stem_id scenario_SAB
   \<and> fst (create 13 3 [1, 2] scenario_SAB) = None
   \<and> remove 3 (snd (create 13 3 [1, 2] scenario_SAB))
       = (None, scenario_SAB\<lparr>heap := fmupd 13 (Node 3) (heap scenario_SAB)\<rparr>)"
proof -
  have fresh: "13 \<notin> fmdom' (heap scenario_SAB)"
    by code_simp
  have A: "exists scenario_SAB 1" and B: "exists scenario_SAB 2" and X: "\<not> exists scenario_SAB 3"
    by code_simp+
  have stem: "3 \<noteq> get_stem_id scenario_SAB"
    by code_simp
  show ?thesis
    using wf_scenario_SAB fresh A B X stem
      create_then_remove_restores [OF wf_scenario_SAB fresh A B X stem]
    by blast
qed

section \<open>The stem\<close>

text \<open>
  C4, as the claim states it: in every store a sequence of operations reaches,
  \<open>exists(get_stem_id())\<close> is true. This fails after the run \<open>cascade_ops\<close>: \<open>connect(0, 2)\<close>
  makes 2 the only parent of the stem 0, and \<open>remove(2)\<close> then removes the stem with it,
  because the counter of 0 reaches the size of its parent set. 1 survives: it is its
  own parent. Every call of the run has defined behaviour: the traversal of \<open>remove(2)\<close>
  pops the nodes of 2 and 0 once each.
\<close>

theorem stem_removed_by_cascade:
  "admissible any_op cascade_ops (VirusGenealogy 10 0)
   \<and> admissible defined_op cascade_ops (VirusGenealogy 10 0)
   \<and> bfs (heap (run (butlast cascade_ops) (VirusGenealogy 10 0))) [12] [] [] (\<lambda>_. 0)
       = ([10, 12], [2, 0])
   \<and> get_stem_id (run cascade_ops (VirusGenealogy 10 0)) = 0
   \<and> \<not> exists (run cascade_ops (VirusGenealogy 10 0))
          (get_stem_id (run cascade_ops (VirusGenealogy 10 0)))
   \<and> exists (run cascade_ops (VirusGenealogy 10 0)) 1"
  by code_simp

text \<open>
  C4, amended. In every store reached from a fresh store by a sequence of \<open>create\<close>,
  \<open>remove\<close> and \<open>connect\<close> calls with defined behaviour, none of which connects the stem
  as a child, \<open>exists(get_stem_id())\<close> is true. In every store whatever,
  \<open>remove(get_stem_id())\<close> throws \<open>TriedToRemoveStemVirus\<close> before any traversal and
  leaves the store as it was. The behaviour of a sequence is defined when no \<open>remove\<close>
  of it erases a position twice or erases \<open>end()\<close> (\<open>remove_defined\<close>).
\<close>

theorem stem_stays_and_cannot_be_removed:
  assumes "admissible defined_never_stem_child ops (VirusGenealogy a0 (stem_id :: 'id))"
  shows "exists (run ops (VirusGenealogy a0 stem_id))
           (get_stem_id (run ops (VirusGenealogy a0 stem_id)))
         \<and> remove (get_stem_id (run ops (VirusGenealogy a0 stem_id)))
             (run ops (VirusGenealogy a0 stem_id))
             = (Some TriedToRemoveStemVirus, run ops (VirusGenealogy a0 stem_id))
         \<and> remove (get_stem_id (s :: 'id genealogy)) s = (Some TriedToRemoveStemVirus, s)"
proof -
  have "admissible never_stem_child ops (VirusGenealogy a0 stem_id)"
    using assms by (rule admissible_mono) (simp add: defined_never_stem_child_def)
  with stem_kept_VirusGenealogy have "stem_kept (run ops (VirusGenealogy a0 stem_id))"
    by (rule stem_kept_run)
  then have "exists (run ops (VirusGenealogy a0 stem_id))
               (get_stem_id (run ops (VirusGenealogy a0 stem_id)))"
    unfolding exists_def by (simp add: stem_keptD(2))
  moreover have "remove (get_stem_id t) t = (Some TriedToRemoveStemVirus, t)" for t :: "'id genealogy"
    unfolding remove_def by simp
  ultimately show ?thesis by simp
qed

theorem stem_stays_and_cannot_be_removed_witness:
  "admissible defined_never_stem_child dag_ops (VirusGenealogy 10 0)
   \<and> exists (run dag_ops (VirusGenealogy 10 0)) (get_stem_id (run dag_ops (VirusGenealogy 10 0)))
   \<and> remove (get_stem_id (run dag_ops (VirusGenealogy 10 0))) (run dag_ops (VirusGenealogy 10 0))
       = (Some TriedToRemoveStemVirus, run dag_ops (VirusGenealogy 10 0))
   \<and> remove (get_stem_id stemless) stemless = (Some TriedToRemoveStemVirus, stemless)"
proof -
  have adm: "admissible defined_never_stem_child dag_ops (VirusGenealogy 10 0)"
    by code_simp
  show ?thesis
    using adm stem_stays_and_cannot_be_removed [OF adm, of stemless] by blast
qed

section \<open>Exactly one entity without a parent\<close>

text \<open>
  C3, as the claim states it: after any sequence of \<open>create\<close>, \<open>connect\<close> and \<open>remove\<close> the
  stem alone has an empty parent set, and no successful operation gives the stem a
  parent. \<open>connect(0, 1)\<close> on the store holding the stem 0 and its child 1 succeeds and
  makes 1 a parent of the stem; afterwards neither of the two entities is without a
  parent.
\<close>

theorem stem_gets_a_parent:
  "admissible any_op stem_child_ops (VirusGenealogy 10 0)
   \<and> fst (connect 0 1 (snd (create 11 1 [0] (VirusGenealogy 10 (0::nat))))) = None
   \<and> get_stem_id (run stem_child_ops (VirusGenealogy 10 0)) = 0
   \<and> get_parents (run stem_child_ops (VirusGenealogy 10 0)) 0 = Inr [1]
   \<and> get_parents (run stem_child_ops (VirusGenealogy 10 0)) 1 = Inr [0]"
  by code_simp

text \<open>
  C3, amended. After every sequence of \<open>create\<close>, \<open>connect\<close> and \<open>remove\<close> calls on a fresh
  store in which no \<open>connect\<close> has the stem as its child or takes as parent the child
  itself or one of its descendants, and no \<open>create\<close> lists the new identifier among
  its own parents, the identifiers whose parent set is empty are exactly the identifier
  of the stem. The sequence may contain calls that throw.
\<close>

theorem stem_is_the_only_parentless_entity:
  assumes "admissible keeps_dag ops (VirusGenealogy a0 stem_id)"
  shows "{vid. get_parents (run ops (VirusGenealogy a0 stem_id)) vid = Inr []}
           = {get_stem_id (run ops (VirusGenealogy a0 stem_id))}"
proof -
  let ?s = "run ops (VirusGenealogy a0 stem_id)"
  have inv: "genealogy_inv ?s"
    using genealogy_inv_VirusGenealogy assms by (rule genealogy_inv_run)
  note gi = genealogy_invD [OF inv]
  have stem: "viruses ?s (get_stem_id ?s) = Some (stemNode ?s)"
    using gi(1) by (rule stem_keptD(2))
  have "get_parents ?s vid = Inr [] \<longleftrightarrow> vid = get_stem_id ?s" for vid
  proof
    assume "get_parents ?s vid = Inr []"
    then obtain a where a: "viruses ?s vid = Some a" "parents (node_at (heap ?s) a) = []"
      unfolding get_parents_def by (auto split: option.splits)
    then have "a \<in> live ?s" unfolding live_iff by blast
    with one_rootD(2) [OF gi(5) this] a(2) have "a = stemNode ?s" by blast
    with wf_viruses [OF gi(2) a(1)] show "vid = get_stem_id ?s"
      unfolding get_stem_id_def by simp
  next
    assume "vid = get_stem_id ?s"
    then show "get_parents ?s vid = Inr []"
      unfolding get_parents_def using stem one_rootD(1) [OF gi(5)] by simp
  qed
  then show ?thesis by blast
qed

theorem stem_is_the_only_parentless_entity_witness:
  "admissible keeps_dag dag_ops (VirusGenealogy 10 0)
   \<and> {vid. get_parents (run dag_ops (VirusGenealogy 10 0)) vid = Inr []}
       = {get_stem_id (run dag_ops (VirusGenealogy 10 0))}"
  using dag_ops_admissible stem_is_the_only_parentless_entity [OF dag_ops_admissible]
  by blast

end
